theory Spec2Isabelle
  imports Complex_Main "HOL-Library.Word" "HOL-Library.AList"
begin

section \<open>Data model of the store manager (datastore/storemanager.go)\<close>

text \<open>
  Instants (\<open>time.Time\<close>) and durations (\<open>time.Duration\<close>) are counted in nanoseconds:
  an instant is its distance from the Unix epoch. \<open>float64\<close> statistics are modelled by
  real numbers, \<open>uint64\<close> counters by 64-bit words. A Go map is an association list read
  with \<open>map_of\<close> and written with \<open>AList.update\<close>; the order of the list is the order in
  which a \<open>range\<close> loop visits the map (Go leaves that order open, and no result below
  depends on it). A \<open>*rollup\<close> is an address into an explicit heap of rollup objects.
\<close>

type_synonym Time = int
type_synonym Duration = int

datatype panic = NilPointer | IndexOutOfRange | SliceBounds | ClosedChannel

text \<open>The Go constants \<open>time.Millisecond\<close>, \<open>time.Second\<close> and \<open>time.Minute\<close>.\<close>

definition Millisecond :: Duration where
  "Millisecond = 1000000"

definition Second :: Duration where
  "Second = 1000000000"

definition Minute :: Duration where
  "Minute = 60000000000"

definition maxDuration :: Duration where
  "maxDuration = 2 ^ 63 - 1"

definition minDuration :: Duration where
  "minDuration = - (2 ^ 63)"

text \<open>\<open>t.Sub(u)\<close>: the difference, saturated to the range of an \<open>int64\<close> duration.\<close>

definition time_Sub :: "Time \<Rightarrow> Time \<Rightarrow> Duration" where
  "time_Sub t u = max minDuration (min maxDuration (t - u))"

text \<open>\<open>t.Add(d)\<close>, \<open>t.Before(u)\<close> and \<open>t.After(u)\<close>.\<close>

definition time_Add :: "Time \<Rightarrow> Duration \<Rightarrow> Time" where
  "time_Add t d = t + d"

definition time_Before :: "Time \<Rightarrow> Time \<Rightarrow> bool" where
  "time_Before t u \<longleftrightarrow> t < u"

definition time_After :: "Time \<Rightarrow> Time \<Rightarrow> bool" where
  "time_After t u \<longleftrightarrow> t > u"

text \<open>
  \<open>time.Unix(sec, 0)\<close>: a \<open>Time\<close> keeps its seconds counted from the year 1 in an
  \<open>int64\<close>, so \<open>sec + unixToInternal\<close> wraps around; the instant is the one the wrapped
  count stands for.
\<close>

definition unixToInternal :: int where
  "unixToInternal = 62135596800"

definition time_Unix :: "int \<Rightarrow> Time" where
  "time_Unix sec = (sint (word_of_int (sec + unixToInternal) :: 64 word) - unixToInternal) * Second"

text \<open>
  The methods \<open>config.AVERAGE\<close>, \<open>config.MAX\<close>, \<open>config.MIN\<close> and \<open>config.SUM\<close>; the last
  three carry a suffix because their names are binder syntax of HOL.
\<close>

datatype RollupMethod = AVERAGE | MAX_method | MIN_method | SUM_method

text \<open>
  The rollup configuration (\<open>config.RollupDef\<close>) is declared outside the files at hand; its
  shape is read off its uses in storemanager.go: a method, a compiled regular expression
  (a pointer, so possibly nil; its \<open>MatchString\<close> is the predicate stored here) and the
  ordered windows, each with a window duration, a retention and a table name.
\<close>

record RollupWindow =
  Window :: Duration
  Retention :: Duration
  Table :: string

record RollupDef =
  Method :: RollupMethod
  Expression :: "(string \<Rightarrow> bool) option"
  Windows :: "RollupWindow list"

text \<open>
  Modelled from the spec: the sentinel \<open>config.ROLLUP_CATCHALL\<close> is a string constant
  declared outside the files at hand; the specification spells it \<open>CATCHALL\<close>.
\<close>

definition ROLLUP_CATCHALL :: string where
  "ROLLUP_CATCHALL = ''CATCHALL''"

text \<open>
  Reading a Go map at a missing key gives the zero value. Modelled from the spec: the zero
  value of the method type is taken to be the first method the specification lists; no
  result below reads the method of a missing definition.
\<close>

definition zeroRollupDef :: RollupDef where
  "zeroRollupDef = \<lparr>Method = AVERAGE, Expression = None, Windows = []\<rparr>"

definition rollupDefOf :: "(string \<times> RollupDef) list \<Rightarrow> string \<Rightarrow> RollupDef" where
  "rollupDefOf defs e = (case map_of defs e of Some d \<Rightarrow> d | None \<Rightarrow> zeroRollupDef)"

text \<open>\<open>type rollup struct\<close> and \<open>type runlist struct\<close>.\<close>

record rollup =
  expr :: string
  count :: "64 word list"
  "value" :: "real list"

record runlist =
  nextWriteTime :: "Time list"
  path :: "(string \<times> nat) list"

text \<open>
  \<open>type StoreManager struct\<close>: the configuration and the rollup data. \<open>byPath\<close> and the
  \<open>path\<close> maps of the run lists hold addresses into \<open>heap\<close>; \<open>new(rollup)\<close> allocates the
  next free address.
\<close>

record StoreManager =
  rollupPriority :: "string list"
  rollup :: "(string \<times> RollupDef) list"
  byPath :: "(string \<times> nat) list"
  byExpr :: "(string \<times> runlist) list"
  heap :: "rollup list"

record CarbonMetric =
  Path :: string
  Value :: real
  Timestamp :: real

section \<open>Classification and accumulation\<close>

text \<open>
  \<open>getExpression\<close>: the loop variable is the function's result, so when no expression
  matches the result is the last element of the priority list (the empty string when the
  list is empty). Matching against a nil expression panics.
\<close>

fun getExpressionLoop ::
  "(string \<times> RollupDef) list \<Rightarrow> string \<Rightarrow> string \<Rightarrow> string list \<Rightarrow> panic + string" where
  "getExpressionLoop defs p cur [] = Inr cur"
| "getExpressionLoop defs p cur (e # es) =
     (if e \<noteq> ROLLUP_CATCHALL then
        (case Expression (rollupDefOf defs e) of
           None \<Rightarrow> Inl NilPointer
         | Some re \<Rightarrow> if re p then Inr e else getExpressionLoop defs p e es)
      else getExpressionLoop defs p e es)"

definition getExpression :: "StoreManager \<Rightarrow> string \<Rightarrow> panic + string" where
  "getExpression sm p = getExpressionLoop (rollup sm) p [] (rollupPriority sm)"

text \<open>Reading \<open>xs[i]\<close>: \<open>None\<close> stands for Go's index-out-of-range panic.\<close>

definition index :: "'a list \<Rightarrow> nat \<Rightarrow> 'a option" where
  "index xs i = (if i < length xs then Some (xs ! i) else None)"

text \<open>
  One step of the loop \<open>for i, v := range currentRollup.value\<close> under each method: the new
  \<open>value[i]\<close> from the old one \<open>v\<close>, the sample \<open>x\<close> and \<open>count[i]\<close> (read only where the
  source reads it; MIN evaluates \<open>v > x\<close> first and reads the count only when that is false).
\<close>

fun bucketValue :: "RollupMethod \<Rightarrow> real \<Rightarrow> real \<Rightarrow> 64 word option \<Rightarrow> panic + real" where
  "bucketValue AVERAGE x v c =
     (case c of None \<Rightarrow> Inl IndexOutOfRange
      | Some n \<Rightarrow> Inr ((v * real (unat n) + x) / real (unat (n + 1))))"
| "bucketValue MAX_method x v c = Inr (if v < x then x else v)"
| "bucketValue MIN_method x v c =
     (if v > x then Inr x
      else (case c of None \<Rightarrow> Inl IndexOutOfRange
            | Some n \<Rightarrow> Inr (if n = 0 then x else v)))"
| "bucketValue SUM_method x v c = Inr (v + x)"

fun applyValues ::
  "RollupMethod \<Rightarrow> real \<Rightarrow> 64 word list \<Rightarrow> nat \<Rightarrow> real list \<Rightarrow> panic + real list" where
  "applyValues m x cs i [] = Inr []"
| "applyValues m x cs i (v # vs) =
     (case bucketValue m x v (index cs i) of
        Inl e \<Rightarrow> Inl e
      | Inr v' \<Rightarrow>
          (case applyValues m x cs (Suc i) vs of
             Inl e \<Rightarrow> Inl e
           | Inr vs' \<Rightarrow> Inr (v' # vs')))"

text \<open>
  The second half of \<open>accumulate\<close>: the switch on the method of the rollup's expression,
  then \<open>count[i]++\<close> for every index of \<open>count\<close>.
\<close>

definition applyMetric :: "StoreManager \<Rightarrow> nat \<Rightarrow> real \<Rightarrow> panic + StoreManager" where
  "applyMetric sm a x =
     (case index (heap sm) a of
        None \<Rightarrow> Inl NilPointer
      | Some r \<Rightarrow>
          (case applyValues (Method (rollupDefOf (rollup sm) (expr r))) x (count r) 0 (value r) of
             Inl e \<Rightarrow> Inl e
           | Inr vs \<Rightarrow>
               Inr (sm\<lparr>heap := (heap sm)[a := r\<lparr>value := vs, count := map (\<lambda>c. c + 1) (count r)\<rparr>]\<rparr>)))"

text \<open>
  The first half of \<open>accumulate\<close>: locate the rollup of the sample's path. The result is
  the state, the address of \<open>currentRollup\<close> and the samples sent on the index-write
  channel \<open>config.G.Channels.IndexStore\<close>. A path that is not in \<open>byPath\<close> gets a fresh
  rollup, entered in \<open>byPath\<close> first and then in the run list of its expression; a
  missing run list is a nil pointer there.
\<close>

definition locateRollup ::
  "StoreManager \<Rightarrow> CarbonMetric \<Rightarrow> panic + (StoreManager \<times> nat \<times> CarbonMetric list)" where
  "locateRollup sm metric =
     (case map_of (byPath sm) (Path metric) of
        Some a \<Rightarrow> Inr (sm, a, [])
      | None \<Rightarrow>
          (case getExpression sm (Path metric) of
             Inl e \<Rightarrow> Inl e
           | Inr ex \<Rightarrow>
               (let n = length (Windows (rollupDefOf (rollup sm) ex));
                    a = length (heap sm);
                    currentRollup = \<lparr>expr = ex, count = replicate n 0, value = replicate n 0\<rparr>;
                    sm1 = sm\<lparr>heap := heap sm @ [currentRollup],
                             byPath := AList.update (Path metric) a (byPath sm)\<rparr>
                in (case map_of (byExpr sm1) ex of
                      None \<Rightarrow> Inl NilPointer
                    | Some rl \<Rightarrow>
                        Inr (sm1\<lparr>byExpr :=
                                   AList.update ex
                                     (rl\<lparr>path := AList.update (Path metric) a (path rl)\<rparr>)
                                     (byExpr sm1)\<rparr>,
                             a, [metric])))))"

text \<open>\<open>accumulate\<close>: the new state and the samples sent on the index-write channel.\<close>

definition accumulate ::
  "StoreManager \<Rightarrow> CarbonMetric \<Rightarrow> panic + (StoreManager \<times> CarbonMetric list)" where
  "accumulate sm metric =
     (case locateRollup sm metric of
        Inl e \<Rightarrow> Inl e
      | Inr (sm1, a, sent) \<Rightarrow>
          (case applyMetric sm1 a (Value metric) of
             Inl e \<Rightarrow> Inl e
           | Inr sm' \<Rightarrow> Inr (sm', sent)))"

section \<open>Window boundaries, reset and flush\<close>

text \<open>
  Modelled from the spec: \<open>nextTimeBoundary\<close> is declared outside the files at hand. The
  specification has it return the smallest instant later than \<open>now\<close> that is an integer
  multiple of the window duration from the epoch.
\<close>

definition nextTimeBoundary :: "Time \<Rightarrow> Duration \<Rightarrow> Time" where
  "nextTimeBoundary baseTime windowSize = (baseTime div windowSize + 1) * windowSize"

text \<open>
  \<open>resetRollupData\<close>: both maps are made anew (no rollup object stays referenced, so the
  heap starts empty), with one run list per configured expression.
\<close>

definition resetRollupData :: "StoreManager \<Rightarrow> Time \<Rightarrow> StoreManager" where
  "resetRollupData sm baseTime =
     sm\<lparr>byPath := [],
        byExpr := map (\<lambda>(ex, rollupdef).
                    (ex, \<lparr>nextWriteTime = map (\<lambda>v. nextTimeBoundary baseTime (Window v))
                                             (Windows rollupdef),
                          path = []\<rparr>)) (rollup sm),
        heap := []\<rparr>"

text \<open>
  A row handed to the batch writer: the table of the last \<open>bw.Prepare\<close>, and the path, time
  and value of \<open>bw.Append\<close>. The batch writer itself (batching, the writes and their
  errors, which \<open>flush\<close> only logs) is outside the files at hand.
\<close>

type_synonym row = "string \<times> string \<times> Time \<times> real"

text \<open>\<open>rollup.count[i] = 0\<close> and \<open>rollup.value[i] = 0\<close>.\<close>

definition zeroBucket :: "nat \<Rightarrow> rollup \<Rightarrow> rollup" where
  "zeroBucket i r = r\<lparr>count := (count r)[i := 0], value := (value r)[i := 0]\<rparr>"

text \<open>The loop over \<open>runList.path\<close> for window \<open>i\<close>.\<close>

fun flushPaths ::
  "nat \<Rightarrow> string \<Rightarrow> Time \<Rightarrow> (string \<times> nat) list \<Rightarrow> rollup list \<Rightarrow> row list
     \<Rightarrow> panic + (rollup list \<times> row list)" where
  "flushPaths i tbl statTime [] h rows = Inr (h, rows)"
| "flushPaths i tbl statTime ((p, a) # ps) h rows =
     (case index h a of
        None \<Rightarrow> Inl NilPointer
      | Some r \<Rightarrow>
          (case index (count r) i of
             None \<Rightarrow> Inl IndexOutOfRange
           | Some c \<Rightarrow>
               (case index (value r) i of
                  None \<Rightarrow> Inl IndexOutOfRange
                | Some v \<Rightarrow>
                    flushPaths i tbl statTime ps
                      (h[a := zeroBucket i r])
                      (if 0 < c then rows @ [(tbl, p, statTime, v)] else rows))))"

text \<open>
  The loop over \<open>runList.nextWriteTime\<close>, run on the indices still to visit. The state is
  the run list's write times, the heap, the rows appended so far and \<open>nextFlush\<close>.
\<close>

fun flushWindows ::
  "(string \<times> RollupDef) list \<Rightarrow> bool \<Rightarrow> Time \<Rightarrow> string \<Rightarrow> (string \<times> nat) list \<Rightarrow> nat list
     \<Rightarrow> Time list \<times> rollup list \<times> row list \<times> Time
     \<Rightarrow> panic + (Time list \<times> rollup list \<times> row list \<times> Time)" where
  "flushWindows defs terminating baseTime ex paths [] st = Inr st"
| "flushWindows defs terminating baseTime ex paths (i # is) (nwt, h, rows, nextFlush) =
     (let windowEnd = nwt ! i in
      if time_Before windowEnd baseTime \<or> terminating then
        (let statTime = (if terminating then baseTime else windowEnd) in
         case index (Windows (rollupDefOf defs ex)) i of
           None \<Rightarrow> Inl IndexOutOfRange
         | Some w \<Rightarrow>
             (case flushPaths i (Table w) statTime paths h rows of
                Inl e \<Rightarrow> Inl e
              | Inr (h', rows') \<Rightarrow>
                  (let nwt' = nwt[i := nextTimeBoundary baseTime (Window w)]
                   in flushWindows defs terminating baseTime ex paths is
                        (nwt', h', rows',
                         if time_After nextFlush (nwt' ! i) then nwt' ! i else nextFlush))))
      else flushWindows defs terminating baseTime ex paths is
             (nwt, h, rows, if time_After nextFlush (nwt ! i) then nwt ! i else nextFlush))"

text \<open>The loop over \<open>sm.byExpr\<close>; the result carries the run lists with their new write times.\<close>

fun flushExprs ::
  "(string \<times> RollupDef) list \<Rightarrow> bool \<Rightarrow> Time \<Rightarrow> (string \<times> runlist) list
     \<Rightarrow> rollup list \<times> row list \<times> Time
     \<Rightarrow> panic + ((string \<times> runlist) list \<times> rollup list \<times> row list \<times> Time)" where
  "flushExprs defs terminating baseTime [] (h, rows, nextFlush) = Inr ([], h, rows, nextFlush)"
| "flushExprs defs terminating baseTime ((ex, runList) # rest) (h, rows, nextFlush) =
     (case flushWindows defs terminating baseTime ex (path runList)
             [0..<length (nextWriteTime runList)] (nextWriteTime runList, h, rows, nextFlush) of
        Inl e \<Rightarrow> Inl e
      | Inr (nwt', h', rows', nextFlush') \<Rightarrow>
          (case flushExprs defs terminating baseTime rest (h', rows', nextFlush') of
             Inl e \<Rightarrow> Inl e
           | Inr (rest', st) \<Rightarrow> Inr ((ex, runList\<lparr>nextWriteTime := nwt'\<rparr>) # rest', st)))"

text \<open>
  \<open>flush\<close>, given the snapshot \<open>baseTime\<close> that \<open>time.Now()\<close> returns and whether the timer
  is ready to receive on \<open>setTimeout\<close>. The result is the new state, the rows handed to
  the batch writer, and the delay that the timer received (\<open>None\<close> when nothing was sent
  or the non-blocking send fell through to \<open>default\<close>).
\<close>

definition flushDelay :: "Time \<Rightarrow> Time \<Rightarrow> Duration" where
  "flushDelay nextFlush baseTime =
     (let delay = time_Sub nextFlush baseTime in if delay < 0 then Millisecond else delay)"

definition flush ::
  "StoreManager \<Rightarrow> bool \<Rightarrow> Time \<Rightarrow> bool \<Rightarrow> panic + (StoreManager \<times> row list \<times> Duration option)" where
  "flush sm terminating baseTime timerReady =
     (case flushExprs (rollup sm) terminating baseTime (byExpr sm)
             (heap sm, [], time_Add baseTime Minute) of
        Inl e \<Rightarrow> Inl e
      | Inr (be, h, rows, nextFlush) \<Rightarrow>
          Inr (sm\<lparr>byExpr := be, heap := h\<rparr>, rows,
               if \<not> terminating \<and> timerReady then Some (flushDelay nextFlush baseTime)
               else None))"

section \<open>The read worker\<close>

text \<open>
  A query: the fields of \<open>config.MetricQuery\<close> that \<open>queryGET\<close> reads (\<open>From\<close> and \<open>To\<close>
  are \<open>int64\<close> seconds). The response channel is represented by whether the requester
  has closed it by the time of delivery.
\<close>

record MetricQuery =
  From :: int
  To :: int
  Query :: "string list"
  ChannelClosed :: bool

text \<open>
  \<open>MetricResponse{q.From, q.To, step, series}\<close> and
  \<open>config.APIQueryResponse{status, message, payload}\<close>. The payload is either the empty
  byte slice or the JSON encoding of a response, kept here as the encoded value.
\<close>

datatype MetricResponse = MetricResponse int int int "(string \<times> real list) list"

datatype APIQueryStatus = AQS_OK | AQS_BADREQUEST

datatype payload = NoBytes | Marshal MetricResponse

datatype APIQueryResponse = APIQueryResponse APIQueryStatus string payload

text \<open>
  What becomes of an answer: it is sent on the response channel, it is withheld, or the
  goroutine panics.
\<close>

datatype 'a delivery = Sent 'a | NotSent | Panicked panic

text \<open>A SELECT handed to the store: the table it names and its three bound values.\<close>

type_synonym select = "string \<times> string \<times> Time \<times> Time"

text \<open>
  The inner loop over the windows of the path's expression: the first window with
  \<open>timeDelta < window.Retention\<close> sets \<open>table\<close> and \<open>step\<close>; with no such window both
  keep the values they had. The step is \<open>int(window.Window.Seconds())\<close>, a conversion
  through \<open>float64\<close>: it is the parameter \<open>toSeconds\<close>, of which nothing is assumed.
\<close>

fun selectWindow ::
  "(Duration \<Rightarrow> int) \<Rightarrow> Duration \<Rightarrow> RollupWindow list \<Rightarrow> string \<times> int \<Rightarrow> string \<times> int" where
  "selectWindow toSeconds timeDelta [] ts = ts"
| "selectWindow toSeconds timeDelta (window # ws) ts =
     (if timeDelta < Retention window then (Table window, toSeconds (Window window))
      else selectWindow toSeconds timeDelta ws ts)"

text \<open>
  The loop over \<open>q.Query\<close>. \<open>db\<close> gives the stats that the store's iterator yields for a
  SELECT. The variables \<open>table\<close>, \<open>step\<close> and \<open>statList\<close> are declared before the loop and
  live across its rounds; \<open>G_Rollup\<close> is \<open>config.G.Rollup\<close>. Besides the variables of the
  source the state records the SELECTs issued and, for stating properties, the value of
  \<open>step\<close> at the end of each round.
\<close>

fun queryPaths ::
  "StoreManager \<Rightarrow> (string \<times> RollupDef) list \<Rightarrow> (Duration \<Rightarrow> int) \<Rightarrow> (select \<Rightarrow> real list)
     \<Rightarrow> Duration \<Rightarrow> int \<Rightarrow> int \<Rightarrow> string list
     \<Rightarrow> string \<times> int \<times> real list \<times> (string \<times> real list) list \<times> select list \<times> int list
     \<Rightarrow> panic + (string \<times> int \<times> real list \<times> (string \<times> real list) list \<times> select list
                  \<times> int list)" where
  "queryPaths sm G_Rollup toSeconds db timeDelta from to [] st = Inr st"
| "queryPaths sm G_Rollup toSeconds db timeDelta from to (p # ps)
     (table, step, statList, series, issued, steps) =
     (case getExpression sm p of
        Inl e \<Rightarrow> Inl e
      | Inr ex \<Rightarrow>
          (let (table', step') =
                 selectWindow toSeconds timeDelta (Windows (rollupDefOf G_Rollup ex)) (table, step);
               sel = (table', p, time_Unix from, time_Unix to);
               statList' = statList @ db sel
           in queryPaths sm G_Rollup toSeconds db timeDelta from to ps
                (table', step', statList', AList.update p statList' series, issued @ [sel],
                 steps @ [step'])))"

text \<open>
  \<open>queryGET\<close>, given the instant \<open>now\<close> read by \<open>time.Since\<close>: what happens on the
  response channel, and the SELECTs issued. The first send is unguarded, so it panics on
  a closed channel; the second is made only when the probe finds the channel open.
\<close>

definition queryGET ::
  "StoreManager \<Rightarrow> (string \<times> RollupDef) list \<Rightarrow> (Duration \<Rightarrow> int) \<Rightarrow> (select \<Rightarrow> real list)
     \<Rightarrow> Time \<Rightarrow> MetricQuery \<Rightarrow> APIQueryResponse delivery \<times> select list" where
  "queryGET sm G_Rollup toSeconds db now q =
     (if length (Query q) = 0 \<or> Query q ! 0 = [] then
        (if ChannelClosed q then (Panicked ClosedChannel, [])
         else (Sent (APIQueryResponse AQS_BADREQUEST ''no query specified'' NoBytes), []))
      else
        (case queryPaths sm G_Rollup toSeconds db (time_Sub now (time_Unix (From q)))
                (From q) (To q) (Query q) ([], 0, [], [], [], []) of
           Inl e \<Rightarrow> (Panicked e, [])
         | Inr (table, step, statList, series, issued, steps) \<Rightarrow>
             (if ChannelClosed q then NotSent
              else Sent (APIQueryResponse AQS_OK []
                           (Marshal (MetricResponse (From q) (To q) step series))),
              issued)))"

section \<open>The path resolver\<close>

text \<open>\<open>strings.Split\<close> on a one-character separator, and \<open>strings.Join\<close>.\<close>

fun strings_Split :: "char \<Rightarrow> string \<Rightarrow> string list" where
  "strings_Split sep [] = [[]]"
| "strings_Split sep (c # cs) =
     (if c = sep then [] # strings_Split sep cs
      else (case strings_Split sep cs of
              [] \<Rightarrow> [[c]]
            | s # ss \<Rightarrow> (c # s) # ss))"

fun strings_Join :: "string list \<Rightarrow> string \<Rightarrow> string" where
  "strings_Join [] sep = []"
| "strings_Join [s] sep = s"
| "strings_Join (s # ss) sep = s @ sep @ strings_Join ss sep"

text \<open>
  \<open>getMax\<close>: the raw string literals are a backslash, and a backslash followed by
  \<open>xff\<close>. Slicing the empty string at \<open>len(s)-1\<close> panics.
\<close>

definition backslash :: char where
  "backslash = CHR 0x5C"

definition getMax :: "string \<Rightarrow> panic + string" where
  "getMax s =
     (if s = [] then Inl SliceBounds
      else if [last s] = ''.'' \<or> [last s] = '':'' then
        Inr (strings_Join [butlast s, [backslash], [last s], backslash # ''xff''] [])
      else Inr (strings_Join [s, backslash # ''xff''] []))"

text \<open>\<open>type MetricResponse struct\<close> of the resolver: path, depth, tenant and leaf.\<close>

datatype MetricResponse_gopher = MetricResponse_gopher string int string bool

text \<open>\<open>strconv.ParseBool\<close> with the error dropped: false for every string it rejects.\<close>

definition ParseBool :: "string \<Rightarrow> bool" where
  "ParseBool s \<longleftrightarrow> s \<in> set [''1'', ''t'', ''T'', ''TRUE'', ''true'', ''True'']"

text \<open>
  The resolver's collaborators: \<open>rc\<close> is the index lookup \<open>ZRangeByLex(...).Result()\<close> on
  the range from \<open>min\<close> to \<open>max\<close> (\<open>None\<close> is an error), \<open>marshal\<close> is \<open>json.Marshal\<close>,
  \<open>compile\<close> is \<open>regexp.Compile\<close> (\<open>None\<close> is an error, otherwise the compiled
  expression's \<open>MatchString\<close>), and \<open>ToBigEndianString\<close> is declared outside the files at
  hand.
\<close>

record StatPathGopher =
  rc :: "string \<Rightarrow> string \<Rightarrow> string list option"
  marshal :: "MetricResponse_gopher list \<Rightarrow> string"
  compile :: "string \<Rightarrow> (string \<Rightarrow> bool) option"
  ToBigEndianString :: "int \<Rightarrow> string"

fun processQueryLoop :: "int \<Rightarrow> string list \<Rightarrow> panic + MetricResponse_gopher list" where
  "processQueryLoop l [] = Inr []"
| "processQueryLoop l (match # ms) =
     (let decodedString = strings_Split (CHR '':'') match in
      case index decodedString 2 of
        None \<Rightarrow> Inl IndexOutOfRange
      | Some leaf \<Rightarrow>
          (case index decodedString 1 of
             None \<Rightarrow> Inl IndexOutOfRange
           | Some pth \<Rightarrow>
               (case processQueryLoop l ms of
                  Inl e \<Rightarrow> Inl e
                | Inr rs \<Rightarrow> Inr (MetricResponse_gopher pth l [] (ParseBool leaf) # rs))))"

definition processQueryResults :: "StatPathGopher \<Rightarrow> string list \<Rightarrow> int \<Rightarrow> panic + string" where
  "processQueryResults gopher results l =
     (case processQueryLoop l results of
        Inl e \<Rightarrow> Inl e
      | Inr responseList \<Rightarrow> Inr (marshal gopher responseList))"

text \<open>The three lookups. A nil byte slice is the empty string.\<close>

definition simpleWild :: "StatPathGopher \<Rightarrow> string \<Rightarrow> int \<Rightarrow> panic + string" where
  "simpleWild gopher q l =
     (let queryString = strings_Join [''['', ToBigEndianString gopher l, '':'', q] [] in
      case getMax queryString of
        Inl e \<Rightarrow> Inl e
      | Inr queryStringMax \<Rightarrow>
          (case rc gopher queryString queryStringMax of
             None \<Rightarrow> Inr []
           | Some resp \<Rightarrow>
               if length resp = 0 then Inr [] else processQueryResults gopher resp l))"

definition noWild :: "StatPathGopher \<Rightarrow> string \<Rightarrow> int \<Rightarrow> panic + string" where
  "noWild gopher q l =
     (let queryString = strings_Join [''['', ToBigEndianString gopher l, '':'', q, '':''] [] in
      case getMax queryString of
        Inl e \<Rightarrow> Inl e
      | Inr queryStringMax \<Rightarrow>
          (case rc gopher queryString queryStringMax of
             None \<Rightarrow> Inr []
           | Some resp \<Rightarrow>
               if length resp = 0 then Inr [] else processQueryResults gopher resp l))"

definition complexWild :: "StatPathGopher \<Rightarrow> string list \<Rightarrow> int \<Rightarrow> panic + string" where
  "complexWild gopher splitWild l =
     (case index splitWild 0 of
        None \<Rightarrow> Inl IndexOutOfRange
      | Some first \<Rightarrow>
          (let queryString = strings_Join [''['', ToBigEndianString gopher l, '':'', first] [] in
           case getMax queryString of
             Inl e \<Rightarrow> Inl e
           | Inr queryStringMax \<Rightarrow>
               (case rc gopher queryString queryStringMax of
                  None \<Rightarrow> Inr []
                | Some resp \<Rightarrow>
                    if length resp = 0 then Inr []
                    else (case compile gopher (strings_Join splitWild ''.*'') of
                            None \<Rightarrow> Inr []
                          | Some regex \<Rightarrow>
                              processQueryResults gopher (filter regex resp) l))))"

text \<open>
  A resolve query (\<open>config.IndexQuery\<close>): the query string, and the response channel,
  represented by whether the requester has closed it by the time of delivery. The field
  names carry a suffix because the read worker's query has fields of the same names.
\<close>

record IndexQuery =
  Query_index :: string
  ChannelClosed_index :: bool

text \<open>
  \<open>query\<close>: the classification of a resolve query, the lookup, and the send of the bytes.
  Each branch is \<open>q.Channel <- ...\<close>: the bytes are computed first, then sent without a
  guard, so the send panics on a closed channel.
\<close>

definition query :: "StatPathGopher \<Rightarrow> IndexQuery \<Rightarrow> string delivery" where
  "query gopher q =
     (let statQuery = Query_index q;
          queryNodes = strings_Split (CHR ''.'') statQuery;
          splitWild = strings_Split (CHR ''*'') statQuery;
          bytes =
            (if length splitWild = 1 then noWild gopher statQuery (int (length queryNodes))
             else if length splitWild = 2 \<and> splitWild ! 1 = [] then
               (case index splitWild 0 of
                  None \<Rightarrow> Inl IndexOutOfRange
                | Some prefix \<Rightarrow> simpleWild gopher prefix (int (length queryNodes)))
             else complexWild gopher splitWild (int (length queryNodes)))
      in case bytes of
           Inl e \<Rightarrow> Panicked e
         | Inr b \<Rightarrow> if ChannelClosed_index q then Panicked ClosedChannel else Sent b)"

section \<open>Example configurations and requests\<close>

text \<open>
  One catch-all expression that sums, with a ten-second window kept for a minute and a
  one-minute window kept for an hour; a store that holds one stat for path \<open>a\<close> and one
  for path \<open>b\<close>.
\<close>

definition ex_windows :: "RollupWindow list" where
  "ex_windows =
     [\<lparr>Window = 10 * Second, Retention = 60 * Second, Table = ''rollup_10_60''\<rparr>,
      \<lparr>Window = 60 * Second, Retention = 3600 * Second, Table = ''rollup_60_3600''\<rparr>]"

definition ex_rollup :: "(string \<times> RollupDef) list" where
  "ex_rollup =
     [(ROLLUP_CATCHALL, \<lparr>Method = SUM_method, Expression = None, Windows = ex_windows\<rparr>)]"

definition ex_sm :: StoreManager where
  "ex_sm = \<lparr>rollupPriority = [ROLLUP_CATCHALL], rollup = ex_rollup,
            byPath = [], byExpr = [], heap = []\<rparr>"

text \<open>
  The conversion \<open>int(d.Seconds())\<close> on durations of whole seconds, such as the windows
  of the example configuration: there the \<open>float64\<close> value is the whole number itself.
\<close>

definition ex_toSeconds :: "Duration \<Rightarrow> int" where
  "ex_toSeconds d = d div Second"

definition ex_db :: "select \<Rightarrow> real list" where
  "ex_db sel = (if fst (snd sel) = ''a'' then [1] else if fst (snd sel) = ''b'' then [2] else [])"

definition ex_query :: MetricQuery where
  "ex_query = \<lparr>From = 100, To = 130, Query = [''a'', ''b''], ChannelClosed = False\<rparr>"

definition ex_query_later_empty :: MetricQuery where
  "ex_query_later_empty = \<lparr>From = 100, To = 130, Query = [''a'', []], ChannelClosed = False\<rparr>"

text \<open>A request without paths whose requester has given up and closed the channel.\<close>

definition ex_query_abandoned :: MetricQuery where
  "ex_query_abandoned = \<lparr>From = 100, To = 130, Query = [], ChannelClosed = True\<rparr>"

section \<open>Well-formed states and the event loop\<close>

text \<open>
  The configuration the store manager is started with: the priority list is not empty,
  every expression in it has a rollup definition, and every expression but the
  catch-all has a compiled regular expression.
\<close>

definition wf_config :: "StoreManager \<Rightarrow> bool" where
  "wf_config sm \<longleftrightarrow>
     rollupPriority sm \<noteq> [] \<and>
     distinct (map fst (rollup sm)) \<and>
     (\<forall>e \<in> set (rollupPriority sm).
        e \<in> set (map fst (rollup sm)) \<and>
        (e \<noteq> ROLLUP_CATCHALL \<longrightarrow> Expression (rollupDefOf (rollup sm) e) \<noteq> None))"

text \<open>
  A run list fits its expression's definition over a heap: one write time per window, no
  path and no rollup object entered twice, and every rollup it refers to is allocated,
  belongs to the expression and has one bucket per window.
\<close>

definition wf_runlist :: "(string \<times> RollupDef) list \<Rightarrow> rollup list \<Rightarrow> string \<times> runlist \<Rightarrow> bool" where
  "wf_runlist defs h x \<longleftrightarrow>
     length (nextWriteTime (snd x)) = length (Windows (rollupDefOf defs (fst x))) \<and>
     distinct (map fst (path (snd x))) \<and>
     distinct (map snd (path (snd x))) \<and>
     (\<forall>pa \<in> set (path (snd x)).
        snd pa < length h \<and>
        expr (h ! snd pa) = fst x \<and>
        length (count (h ! snd pa)) = length (nextWriteTime (snd x)) \<and>
        length (value (h ! snd pa)) = length (nextWriteTime (snd x)))"

text \<open>
  The states the event loop works on: a well-formed configuration, one well-formed run
  list per configured expression, and the two maps in step (every entry of a run list is
  the entry of \<open>byPath\<close> for that path, and every entry of \<open>byPath\<close> is in some run list).
\<close>

definition wf_state :: "StoreManager \<Rightarrow> bool" where
  "wf_state sm \<longleftrightarrow>
     wf_config sm \<and>
     map fst (byExpr sm) = map fst (rollup sm) \<and>
     distinct (map fst (byPath sm)) \<and>
     (\<forall>x \<in> set (byExpr sm).
        wf_runlist (rollup sm) (heap sm) x \<and>
        (\<forall>pa \<in> set (path (snd x)). map_of (byPath sm) (fst pa) = Some (snd pa))) \<and>
     (\<forall>pa \<in> set (byPath sm). \<exists>x \<in> set (byExpr sm). pa \<in> set (path (snd x)))"

text \<open>
  The two views of the rollup of a path: through \<open>byPath\<close>, and through the run list of
  an expression. Each is the address the map holds, looked up in the heap.
\<close>

definition viewByPath :: "StoreManager \<Rightarrow> string \<Rightarrow> rollup option" where
  "viewByPath sm p = (case map_of (byPath sm) p of None \<Rightarrow> None | Some a \<Rightarrow> index (heap sm) a)"

definition viewByExpr :: "StoreManager \<Rightarrow> string \<Rightarrow> string \<Rightarrow> rollup option" where
  "viewByExpr sm e p =
     (case map_of (byExpr sm) e of
        None \<Rightarrow> None
      | Some rl \<Rightarrow> (case map_of (path rl) p of None \<Rightarrow> None | Some a \<Rightarrow> index (heap sm) a))"

text \<open>
  The two-level indexing invariant: a path is a key of \<open>byPath\<close> exactly when it is a key
  of the \<open>path\<close> map of some run list, and a run list holds for a path the very address
  that \<open>byPath\<close> holds, so that the two views agree whatever the heap is changed to.
\<close>

definition two_level_inv :: "StoreManager \<Rightarrow> bool" where
  "two_level_inv sm \<longleftrightarrow>
     (\<forall>p. (map_of (byPath sm) p \<noteq> None) =
           (\<exists>e rl. map_of (byExpr sm) e = Some rl \<and> map_of (path rl) p \<noteq> None)) \<and>
     (\<forall>e rl p a. map_of (byExpr sm) e = Some rl \<longrightarrow> map_of (path rl) p = Some a \<longrightarrow>
        map_of (byPath sm) p = Some a \<and>
        (\<forall>h. viewByExpr (sm\<lparr>heap := h\<rparr>) e p = viewByPath (sm\<lparr>heap := h\<rparr>) p))"

text \<open>
  The states between the operations of the event loop \<open>run\<close>: the state after
  \<open>resetRollupData\<close> (at start, and after the flush of a peer change), and the state after
  each \<open>accumulate\<close> and each \<open>flush\<close> that returns.
\<close>

inductive reachable :: "StoreManager \<Rightarrow> bool" where
  after_reset: "reachable (resetRollupData sm baseTime)"
| after_accumulate:
    "reachable sm \<Longrightarrow> accumulate sm metric = Inr (sm', sent) \<Longrightarrow> reachable sm'"
| after_flush:
    "reachable sm \<Longrightarrow> flush sm terminating baseTime timerReady = Inr (sm', rows, delay)
       \<Longrightarrow> reachable sm'"

text \<open>
  What well-formedness reads of a heap and of the run lists: the expression and the
  bucket counts of every rollup, and the key, the number of write times and the paths of
  every run list. A flush changes neither.
\<close>

definition heap_shape :: "rollup list \<Rightarrow> (string \<times> nat \<times> nat) list" where
  "heap_shape h = map (\<lambda>r. (expr r, length (count r), length (value r))) h"

definition runlist_shape :: "(string \<times> runlist) list \<Rightarrow> (string \<times> nat \<times> (string \<times> nat) list) list" where
  "runlist_shape be = map (\<lambda>x. (fst x, length (nextWriteTime (snd x)), path (snd x))) be"

text \<open>
  The new value of a bucket as the specification words it for each method, from the
  sample \<open>x\<close>, the old value \<open>v\<close> and the old count \<open>c\<close>.
\<close>

definition spec_bucketValue :: "RollupMethod \<Rightarrow> real \<Rightarrow> real \<Rightarrow> 64 word \<Rightarrow> real" where
  "spec_bucketValue m x v c =
     (case m of
        AVERAGE \<Rightarrow> (v * real (unat c) + x) / real (unat (c + 1))
      | MAX_method \<Rightarrow> max v x
      | MIN_method \<Rightarrow> (if c = 0 \<or> x < v then x else v)
      | SUM_method \<Rightarrow> v + x)"

text \<open>
  The event loop taking samples off the ingest channel one after the other: the state
  after the last \<open>accumulate\<close> and everything sent on the index-write channel.
\<close>

fun accumulateAll ::
  "StoreManager \<Rightarrow> CarbonMetric list \<Rightarrow> panic + (StoreManager \<times> CarbonMetric list)" where
  "accumulateAll sm [] = Inr (sm, [])"
| "accumulateAll sm (metric # ms) =
     (case accumulate sm metric of
        Inl e \<Rightarrow> Inl e
      | Inr (sm1, sent) \<Rightarrow>
          (case accumulateAll sm1 ms of
             Inl e \<Rightarrow> Inl e
           | Inr (sm', sent') \<Rightarrow> Inr (sm', sent @ sent')))"

text \<open>
  A state of the summing catch-all configuration after the samples 1, 2 and 3 for the
  path \<open>a.b\<close>, and two samples: one for that path, one for a path not seen before.
\<close>

definition ex_state :: StoreManager where
  "ex_state =
     \<lparr>rollupPriority = [ROLLUP_CATCHALL], rollup = ex_rollup,
      byPath = [(''a.b'', 0)],
      byExpr = [(ROLLUP_CATCHALL,
                 \<lparr>nextWriteTime = [110 * Second, 120 * Second], path = [(''a.b'', 0)]\<rparr>)],
      heap = [\<lparr>expr = ROLLUP_CATCHALL, count = [3, 3], value = [6, 6]\<rparr>]\<rparr>"

definition ex_metric :: CarbonMetric where
  "ex_metric = \<lparr>Path = ''a.b'', Value = 4, Timestamp = 101\<rparr>"

definition ex_metric_new :: CarbonMetric where
  "ex_metric_new = \<lparr>Path = ''c.d'', Value = 5, Timestamp = 102\<rparr>"

text \<open>
  The rows of the non-empty buckets of a run list over a heap, window by window and
  within a window in the order of the run list's paths, all stamped with one time.
\<close>

definition bucketRows ::
  "(string \<times> RollupDef) list \<Rightarrow> Time \<Rightarrow> rollup list \<Rightarrow> string \<times> runlist \<Rightarrow> row list" where
  "bucketRows defs statTime h x =
     concat (map (\<lambda>i. map (\<lambda>pa. (Table (Windows (rollupDefOf defs (fst x)) ! i), fst pa, statTime,
                                  value (h ! snd pa) ! i))
                         (filter (\<lambda>pa. 0 < count (h ! snd pa) ! i) (path (snd x))))
                 [0..<length (nextWriteTime (snd x))])"


text \<open>The sample of value \<open>v\<close> for the path \<open>a.b\<close>.\<close>

definition ex_sample :: "real \<Rightarrow> CarbonMetric" where
  "ex_sample v = \<lparr>Path = ''a.b'', Value = v, Timestamp = 105\<rparr>"

text \<open>
  The specification's serialized empty list: the JSON text of a list without elements.
\<close>

definition serializedEmptyList :: string where
  "serializedEmptyList = ''[]''"

text \<open>
  Two resolvers. The index of the first holds the two members of depth five under
  \<open>a.b.c.d\<close> and answers every other range with no members; the index lookup of the
  second fails. Their encoder gives \<open>null\<close> for the nil list, as \<open>json.Marshal\<close> does, and
  never the empty byte sequence; the depths two and five are encoded in four digits.
\<close>

definition ex_marshal :: "MetricResponse_gopher list \<Rightarrow> string" where
  "ex_marshal rs = (if rs = [] then ''null'' else ''[...]'')"

definition ex_ToBigEndianString :: "int \<Rightarrow> string" where
  "ex_ToBigEndianString l = (if l = 5 then ''0005'' else ''0002'')"

definition ex_gopher :: StatPathGopher where
  "ex_gopher =
     \<lparr>rc = (\<lambda>lo hi. if lo = ''[0005:a.b.c.d.''
                      then Some [''0005:a.b.c.d.e:true'', ''0005:a.b.c.d.f:true'']
                      else Some []),
      marshal = ex_marshal, compile = (\<lambda>s. None), ToBigEndianString = ex_ToBigEndianString\<rparr>"

definition ex_gopher_down :: StatPathGopher where
  "ex_gopher_down =
     \<lparr>rc = (\<lambda>lo hi. None), marshal = ex_marshal, compile = (\<lambda>s. None),
      ToBigEndianString = ex_ToBigEndianString\<rparr>"

text \<open>
  Resolve queries: a prefix query, an exact query for a path the index does not hold,
  and the same query after its requester has closed the channel.
\<close>

definition ex_resolve_prefix :: IndexQuery where
  "ex_resolve_prefix = \<lparr>Query_index = ''a.b.c.d.*'', ChannelClosed_index = False\<rparr>"

definition ex_resolve_missing :: IndexQuery where
  "ex_resolve_missing = \<lparr>Query_index = ''x.y'', ChannelClosed_index = False\<rparr>"

definition ex_resolve_abandoned :: IndexQuery where
  "ex_resolve_abandoned = \<lparr>Query_index = ''x.y'', ChannelClosed_index = True\<rparr>"

text \<open>
  A resolver whose index answers every range with one member that lacks the leaf field.
\<close>

definition ex_gopher_malformed :: StatPathGopher where
  "ex_gopher_malformed =
     \<lparr>rc = (\<lambda>lo hi. Some [''0002:x.y'']), marshal = ex_marshal, compile = (\<lambda>s. None),
      ToBigEndianString = ex_ToBigEndianString\<rparr>"

section \<open>Properties of accumulation\<close>

lemma update_fresh: "map_of al k = None \<Longrightarrow> AList.update k v al = al @ [(k, v)]"
  by (induction al) (auto split: if_splits)

lemma set_update_present:
  "distinct (map fst al) \<Longrightarrow> (k, v0) \<in> set al \<Longrightarrow>
     set (AList.update k v al) = insert (k, v) (set al - {(k, v0)})"
proof (induction al)
  case Nil
  then show ?case by simp
next
  case (Cons x al)
  show ?case
  proof (cases "fst x = k")
    case True
    with Cons.prems have "x = (k, v0)"
      by (cases x) (auto simp: image_iff)
    moreover from Cons.prems True have "(k, v0) \<notin> set al"
      by (auto simp: image_iff)
    ultimately show ?thesis by auto
  next
    case False
    with Cons show ?thesis by (cases x) auto
  qed
qed

lemma getExpressionLoop_ok:
  "\<forall>e \<in> set es. e \<noteq> ROLLUP_CATCHALL \<longrightarrow> Expression (rollupDefOf defs e) \<noteq> None \<Longrightarrow>
     \<exists>ex. getExpressionLoop defs p cur es = Inr ex \<and> (if es = [] then ex = cur else ex \<in> set es)"
proof (induction es arbitrary: cur)
  case Nil
  then show ?case by simp
next
  case (Cons e es)
  then have ih: "\<exists>ex. getExpressionLoop defs p e es = Inr ex \<and> (if es = [] then ex = e else ex \<in> set es)"
    by simp
  from Cons.prems have ex: "e \<noteq> ROLLUP_CATCHALL \<longrightarrow> Expression (rollupDefOf defs e) \<noteq> None"
    by simp
  show ?case
    using ih ex by (auto split: option.splits if_splits)
qed

lemma getExpression_ok:
  assumes "wf_config sm"
  shows "\<exists>ex. getExpression sm p = Inr ex \<and> ex \<in> set (rollupPriority sm)"
proof -
  from assms have ne: "rollupPriority sm \<noteq> []"
    and ok: "\<forall>e \<in> set (rollupPriority sm). e \<noteq> ROLLUP_CATCHALL \<longrightarrow> Expression (rollupDefOf (rollup sm) e) \<noteq> None"
    by (auto simp: wf_config_def)
  from getExpressionLoop_ok [OF ok, of p "[]"] ne show ?thesis
    by (auto simp: getExpression_def)
qed

lemma heap_shape_nth:
  assumes "heap_shape h' = heap_shape h" and "a < length h"
  shows "expr (h' ! a) = expr (h ! a)"
    and "length (count (h' ! a)) = length (count (h ! a))"
    and "length (value (h' ! a)) = length (value (h ! a))"
proof -
  from assms(1) have len: "length h' = length h"
    by (metis heap_shape_def length_map)
  from assms(1) have "heap_shape h' ! a = heap_shape h ! a" by simp
  with len assms(2) have "(expr (h' ! a), length (count (h' ! a)), length (value (h' ! a)))
      = (expr (h ! a), length (count (h ! a)), length (value (h ! a)))"
    by (simp add: heap_shape_def)
  then show "expr (h' ! a) = expr (h ! a)"
    and "length (count (h' ! a)) = length (count (h ! a))"
    and "length (value (h' ! a)) = length (value (h ! a))"
    by simp_all
qed

lemma heap_shape_length: "heap_shape h' = heap_shape h \<Longrightarrow> length h' = length h"
  by (metis heap_shape_def length_map)

lemma wf_runlist_shape:
  assumes "wf_runlist defs h x"
    and "heap_shape h' = heap_shape h"
    and "fst x' = fst x"
    and "length (nextWriteTime (snd x')) = length (nextWriteTime (snd x))"
    and "path (snd x') = path (snd x)"
  shows "wf_runlist defs h' x'"
proof -
  have "snd pa < length h' \<and> expr (h' ! snd pa) = fst x'
        \<and> length (count (h' ! snd pa)) = length (nextWriteTime (snd x'))
        \<and> length (value (h' ! snd pa)) = length (nextWriteTime (snd x'))"
    if "pa \<in> set (path (snd x'))" for pa
  proof -
    from that assms(1,5) have *: "snd pa < length h" "expr (h ! snd pa) = fst x"
      "length (count (h ! snd pa)) = length (nextWriteTime (snd x))"
      "length (value (h ! snd pa)) = length (nextWriteTime (snd x))"
      by (simp_all add: wf_runlist_def)
    with heap_shape_nth [OF assms(2) *(1)] heap_shape_length [OF assms(2)] assms(3,4)
    show ?thesis by simp
  qed
  moreover from assms(1,3,4,5) have
    "length (nextWriteTime (snd x')) = length (Windows (rollupDefOf defs (fst x')))"
    "distinct (map fst (path (snd x')))" "distinct (map snd (path (snd x')))"
    by (simp_all add: wf_runlist_def)
  ultimately show ?thesis
    unfolding wf_runlist_def by blast
qed

lemma runlist_shape_set:
  assumes "runlist_shape be' = runlist_shape be" and "x' \<in> set be'"
  shows "\<exists>x \<in> set be. fst x' = fst x
           \<and> length (nextWriteTime (snd x')) = length (nextWriteTime (snd x))
           \<and> path (snd x') = path (snd x)"
proof -
  let ?f = "\<lambda>x :: string \<times> runlist. (fst x, length (nextWriteTime (snd x)), path (snd x))"
  from assms(2) have "?f x' \<in> ?f ` set be'" by (rule imageI)
  also have "?f ` set be' = set (runlist_shape be')" by (simp add: runlist_shape_def)
  also have "\<dots> = set (runlist_shape be)" by (simp only: assms(1))
  also have "\<dots> = ?f ` set be" by (simp add: runlist_shape_def)
  finally obtain x where "x \<in> set be" "?f x' = ?f x" by (rule imageE)
  then show ?thesis by (intro bexI [of _ x]) simp_all
qed

lemma runlist_shape_keys: "runlist_shape be' = runlist_shape be \<Longrightarrow> map fst be' = map fst be"
proof -
  assume "runlist_shape be' = runlist_shape be"
  then have "map fst (runlist_shape be') = map fst (runlist_shape be)" by simp
  then show ?thesis by (simp add: runlist_shape_def comp_def)
qed

lemma wf_state_shape:
  assumes wf: "wf_state sm"
    and hs: "heap_shape h' = heap_shape (heap sm)"
    and rs: "runlist_shape be' = runlist_shape (byExpr sm)"
  shows "wf_state (sm\<lparr>byExpr := be', heap := h'\<rparr>)"
proof -
  have a: "\<forall>x' \<in> set be'. wf_runlist (rollup sm) h' x'
             \<and> (\<forall>pa \<in> set (path (snd x')). map_of (byPath sm) (fst pa) = Some (snd pa))"
  proof
    fix x' assume "x' \<in> set be'"
    from runlist_shape_set [OF rs this] obtain x where x: "x \<in> set (byExpr sm)"
      "fst x' = fst x" "length (nextWriteTime (snd x')) = length (nextWriteTime (snd x))"
      "path (snd x') = path (snd x)" by blast
    from wf x(1) have "wf_runlist (rollup sm) (heap sm) x"
      and "\<forall>pa \<in> set (path (snd x)). map_of (byPath sm) (fst pa) = Some (snd pa)"
      by (auto simp: wf_state_def)
    with wf_runlist_shape [OF _ hs x(2) x(3) x(4)] x(4)
    show "wf_runlist (rollup sm) h' x'
             \<and> (\<forall>pa \<in> set (path (snd x')). map_of (byPath sm) (fst pa) = Some (snd pa))"
      by simp
  qed
  have b: "\<forall>pa \<in> set (byPath sm). \<exists>x' \<in> set be'. pa \<in> set (path (snd x'))"
  proof
    fix pa assume "pa \<in> set (byPath sm)"
    with wf obtain x where x: "x \<in> set (byExpr sm)" "pa \<in> set (path (snd x))"
      by (auto simp: wf_state_def)
    from runlist_shape_set [OF rs [symmetric] x(1)] obtain x' where
      "x' \<in> set be'" "path (snd x) = path (snd x')" by blast
    with x(2) show "\<exists>x' \<in> set be'. pa \<in> set (path (snd x'))" by auto
  qed
  from wf have "wf_config sm" "map fst (byExpr sm) = map fst (rollup sm)"
    "distinct (map fst (byPath sm))"
    by (simp_all add: wf_state_def)
  then have "wf_config (sm\<lparr>byExpr := be', heap := h'\<rparr>)"
    and "map fst be' = map fst (rollup sm)" and "distinct (map fst (byPath sm))"
    using runlist_shape_keys [OF rs] by (simp_all add: wf_config_def)
  with a b show ?thesis
    unfolding wf_state_def by simp
qed

lemma locateRollup_found:
  "map_of (byPath sm) (Path m) = Some a \<Longrightarrow> locateRollup sm m = Inr (sm, a, [])"
  by (simp add: locateRollup_def)

lemma map_of_key:
  assumes "k \<in> set (map fst al)"
  shows "\<exists>v. map_of al k = Some v \<and> (k, v) \<in> set al"
proof -
  from assms have "map_of al k \<noteq> None"
    by (simp add: map_of_eq_None_iff)
  then obtain v where "map_of al k = Some v" by auto
  then show ?thesis by (auto dest: map_of_SomeD)
qed

lemma wf_state_key:
  assumes "wf_state sm" and "e \<in> set (rollupPriority sm)"
  shows "\<exists>rl. map_of (byExpr sm) e = Some rl \<and> (e, rl) \<in> set (byExpr sm)"
proof -
  from assms have "e \<in> set (map fst (byExpr sm))"
    by (simp add: wf_state_def wf_config_def)
  then show ?thesis by (rule map_of_key)
qed

lemma wf_state_path_fresh:
  assumes "wf_state sm" and "map_of (byPath sm) p = None" and "x \<in> set (byExpr sm)"
  shows "map_of (path (snd x)) p = None"
proof (rule ccontr)
  assume "map_of (path (snd x)) p \<noteq> None"
  then obtain a where "map_of (path (snd x)) p = Some a" by auto
  then have "(p, a) \<in> set (path (snd x))" by (rule map_of_SomeD)
  with assms(1,3) have "map_of (byPath sm) p = Some a"
    by (fastforce simp: wf_state_def)
  with assms(2) show False by simp
qed

lemma locateRollup_fresh:
  assumes wf: "wf_state sm" and fresh: "map_of (byPath sm) (Path m) = None"
  shows "\<exists>ex rl. getExpression sm (Path m) = Inr ex \<and> (ex, rl) \<in> set (byExpr sm) \<and>
           locateRollup sm m =
             Inr (sm\<lparr>heap := heap sm @ [\<lparr>expr = ex,
                                           count = replicate (length (nextWriteTime rl)) 0,
                                           value = replicate (length (nextWriteTime rl)) 0\<rparr>],
                     byPath := byPath sm @ [(Path m, length (heap sm))],
                     byExpr := AList.update ex
                                 (rl\<lparr>path := path rl @ [(Path m, length (heap sm))]\<rparr>)
                                 (byExpr sm)\<rparr>,
                  length (heap sm), [m])"
proof -
  from wf have cfg: "wf_config sm" by (simp add: wf_state_def)
  from getExpression_ok [OF cfg, of "Path m"] obtain ex where
    ex: "getExpression sm (Path m) = Inr ex" "ex \<in> set (rollupPriority sm)" by blast
  from wf_state_key [OF wf ex(2)] obtain rl where
    rl: "map_of (byExpr sm) ex = Some rl" "(ex, rl) \<in> set (byExpr sm)" by blast
  from wf rl(2) have "wf_runlist (rollup sm) (heap sm) (ex, rl)"
    by (auto simp: wf_state_def)
  then have n: "length (Windows (rollupDefOf (rollup sm) ex)) = length (nextWriteTime rl)"
    by (simp add: wf_runlist_def)
  from wf_state_path_fresh [OF wf fresh rl(2)] have "map_of (path rl) (Path m) = None"
    by simp
  then have p: "AList.update (Path m) (length (heap sm)) (path rl)
                  = path rl @ [(Path m, length (heap sm))]"
    by (rule update_fresh)
  from fresh have b: "AList.update (Path m) (length (heap sm)) (byPath sm)
                  = byPath sm @ [(Path m, length (heap sm))]"
    by (rule update_fresh)
  have "locateRollup sm m = Inr (sm\<lparr>heap := heap sm @ [\<lparr>expr = ex,
                                           count = replicate (length (nextWriteTime rl)) 0,
                                           value = replicate (length (nextWriteTime rl)) 0\<rparr>],
                     byPath := byPath sm @ [(Path m, length (heap sm))],
                     byExpr := AList.update ex
                                 (rl\<lparr>path := path rl @ [(Path m, length (heap sm))]\<rparr>)
                                 (byExpr sm)\<rparr>,
                  length (heap sm), [m])"
    by (simp add: locateRollup_def fresh ex(1) rl(1) n p b Let_def)
  with ex(1) rl(2) show ?thesis by blast
qed

lemma wf_runlist_heap_append:
  assumes "wf_runlist defs h x"
  shows "wf_runlist defs (h @ [r]) x"
proof -
  have "snd pa < length (h @ [r]) \<and> expr ((h @ [r]) ! snd pa) = fst x
        \<and> length (count ((h @ [r]) ! snd pa)) = length (nextWriteTime (snd x))
        \<and> length (value ((h @ [r]) ! snd pa)) = length (nextWriteTime (snd x))"
    if "pa \<in> set (path (snd x))" for pa
  proof -
    from that assms have *: "snd pa < length h" "expr (h ! snd pa) = fst x"
      "length (count (h ! snd pa)) = length (nextWriteTime (snd x))"
      "length (value (h ! snd pa)) = length (nextWriteTime (snd x))"
      by (simp_all add: wf_runlist_def)
    then show ?thesis by (simp add: nth_append)
  qed
  moreover from assms have
    "length (nextWriteTime (snd x)) = length (Windows (rollupDefOf defs (fst x)))"
    "distinct (map fst (path (snd x)))" "distinct (map snd (path (snd x)))"
    by (simp_all add: wf_runlist_def)
  ultimately show ?thesis
    unfolding wf_runlist_def by blast
qed

lemma map_of_snoc_old: "map_of al k = Some v \<Longrightarrow> map_of (al @ [(k', v')]) k = Some v"
  by (simp add: map_add_Some_iff)

lemma map_of_snoc_new: "map_of al k = None \<Longrightarrow> map_of (al @ [(k, v)]) k = Some v"
  by (simp add: map_add_Some_iff)

lemma wf_runlist_extend:
  assumes wr: "wf_runlist defs h (ex, rl)"
    and fresh: "map_of (path rl) p = None"
  shows "wf_runlist defs
           (h @ [\<lparr>expr = ex, count = replicate (length (nextWriteTime rl)) 0,
                   value = replicate (length (nextWriteTime rl)) 0\<rparr>])
           (ex, rl\<lparr>path := path rl @ [(p, length h)]\<rparr>)"
proof -
  let ?h = "h @ [\<lparr>expr = ex, count = replicate (length (nextWriteTime rl)) 0,
                   value = replicate (length (nextWriteTime rl)) 0\<rparr>]"
  from wr have old: "\<forall>pa \<in> set (path rl). snd pa < length h \<and> expr (h ! snd pa) = ex
      \<and> length (count (h ! snd pa)) = length (nextWriteTime rl)
      \<and> length (value (h ! snd pa)) = length (nextWriteTime rl)"
    by (simp add: wf_runlist_def)
  from fresh have p: "p \<notin> fst ` set (path rl)"
    by (simp add: map_of_eq_None_iff)
  from old have a: "length h \<notin> snd ` set (path rl)" by auto
  have "snd pa < length ?h \<and> expr (?h ! snd pa) = ex
        \<and> length (count (?h ! snd pa)) = length (nextWriteTime rl)
        \<and> length (value (?h ! snd pa)) = length (nextWriteTime rl)"
    if "pa \<in> set (path rl @ [(p, length h)])" for pa
  proof (cases "pa \<in> set (path rl)")
    case True
    with old have "snd pa < length h \<and> expr (h ! snd pa) = ex
      \<and> length (count (h ! snd pa)) = length (nextWriteTime rl)
      \<and> length (value (h ! snd pa)) = length (nextWriteTime rl)"
      by blast
    then show ?thesis by (simp add: nth_append)
  next
    case False
    with that have "pa = (p, length h)" by simp
    then show ?thesis by simp
  qed
  moreover from wr p a have
    "length (nextWriteTime rl) = length (Windows (rollupDefOf defs ex))"
    "distinct (map fst (path rl @ [(p, length h)]))"
    "distinct (map snd (path rl @ [(p, length h)]))"
    by (simp_all add: wf_runlist_def)
  ultimately show ?thesis
    unfolding wf_runlist_def by simp
qed

lemma wf_state_insert:
  assumes wf: "wf_state sm"
    and fresh: "map_of (byPath sm) p = None"
    and rl: "(ex, rl) \<in> set (byExpr sm)"
  shows "wf_state (sm\<lparr>heap := heap sm @ [\<lparr>expr = ex,
                                           count = replicate (length (nextWriteTime rl)) 0,
                                           value = replicate (length (nextWriteTime rl)) 0\<rparr>],
                     byPath := byPath sm @ [(p, length (heap sm))],
                     byExpr := AList.update ex
                                 (rl\<lparr>path := path rl @ [(p, length (heap sm))]\<rparr>)
                                 (byExpr sm)\<rparr>)"
    (is "wf_state ?sm'")
proof -
  let ?cur = "\<lparr>expr = ex, count = replicate (length (nextWriteTime rl)) 0,
               value = replicate (length (nextWriteTime rl)) 0\<rparr>"
  let ?a = "length (heap sm)"
  let ?rl' = "rl\<lparr>path := path rl @ [(p, ?a)]\<rparr>"
  let ?E' = "AList.update ex ?rl' (byExpr sm)"
  let ?B' = "byPath sm @ [(p, ?a)]"
  from wf have cfg: "wf_config sm" and keys: "map fst (byExpr sm) = map fst (rollup sm)"
    and dB: "distinct (map fst (byPath sm))"
    and runs: "\<forall>x \<in> set (byExpr sm). wf_runlist (rollup sm) (heap sm) x
                \<and> (\<forall>pa \<in> set (path (snd x)). map_of (byPath sm) (fst pa) = Some (snd pa))"
    and inv: "\<forall>pa \<in> set (byPath sm). \<exists>x \<in> set (byExpr sm). pa \<in> set (path (snd x))"
    by (simp_all add: wf_state_def)
  from cfg keys have dE: "distinct (map fst (byExpr sm))"
    by (simp add: wf_config_def)
  from set_update_present [OF dE rl] have setE: "set ?E' = insert (ex, ?rl') (set (byExpr sm) - {(ex, rl)})" .
  from rl have "ex \<in> set (map fst (byExpr sm))" by force
  then have keysE: "map fst ?E' = map fst (byExpr sm)"
    by (simp add: update_keys)
  from runs rl have wr: "wf_runlist (rollup sm) (heap sm) (ex, rl)"
    and link: "\<forall>pa \<in> set (path rl). map_of (byPath sm) (fst pa) = Some (snd pa)"
    by force+
  from wf_state_path_fresh [OF wf fresh rl] have pfresh: "map_of (path rl) p = None" by simp
  have c1: "wf_config ?sm'"
    using cfg by (simp add: wf_config_def)
  have c2: "map fst ?E' = map fst (rollup sm)"
    using keysE keys by simp
  from fresh have "p \<notin> fst ` set (byPath sm)"
    by (simp add: map_of_eq_None_iff)
  with dB have c3: "distinct (map fst ?B')" by simp
  have c4: "wf_runlist (rollup sm) (heap sm @ [?cur]) x
            \<and> (\<forall>pa \<in> set (path (snd x)). map_of ?B' (fst pa) = Some (snd pa))"
    if "x \<in> set ?E'" for x
  proof (cases "x = (ex, ?rl')")
    case True
    have "map_of ?B' (fst pa) = Some (snd pa)" if "pa \<in> set (path rl @ [(p, ?a)])" for pa
    proof (cases "pa \<in> set (path rl)")
      case True
      with link have "map_of (byPath sm) (fst pa) = Some (snd pa)" by blast
      then show ?thesis by (rule map_of_snoc_old)
    next
      case False
      with that have "pa = (p, ?a)" by simp
      moreover from fresh have "map_of ?B' p = Some ?a" by (rule map_of_snoc_new)
      ultimately show ?thesis by simp
    qed
    with True wf_runlist_extend [OF wr pfresh] show ?thesis by simp
  next
    case False
    with that setE have x: "x \<in> set (byExpr sm)" by auto
    with runs have "wf_runlist (rollup sm) (heap sm) x"
      and l: "\<forall>pa \<in> set (path (snd x)). map_of (byPath sm) (fst pa) = Some (snd pa)"
      by blast+
    then have "wf_runlist (rollup sm) (heap sm @ [?cur]) x"
      by (simp add: wf_runlist_heap_append)
    moreover from l have "\<forall>pa \<in> set (path (snd x)). map_of ?B' (fst pa) = Some (snd pa)"
      by (auto intro: map_of_snoc_old)
    ultimately show ?thesis by blast
  qed
  have c5: "\<exists>x \<in> set ?E'. pa \<in> set (path (snd x))" if "pa \<in> set ?B'" for pa
  proof (cases "pa \<in> set (byPath sm)")
    case True
    with inv obtain x where x: "x \<in> set (byExpr sm)" "pa \<in> set (path (snd x))" by blast
    show ?thesis
    proof (cases "x = (ex, rl)")
      case True
      with x(2) have "pa \<in> set (path (snd (ex, ?rl')))" by simp
      moreover from setE have "(ex, ?rl') \<in> set ?E'" by simp
      ultimately show ?thesis by blast
    next
      case False
      with x(1) setE have "x \<in> set ?E'" by simp
      with x(2) show ?thesis by blast
    qed
  next
    case False
    with that have "pa = (p, ?a)" by simp
    then have "pa \<in> set (path (snd (ex, ?rl')))" by simp
    moreover from setE have "(ex, ?rl') \<in> set ?E'" by simp
    ultimately show ?thesis by blast
  qed
  from c1 c2 c3 c4 c5 show ?thesis
    unfolding wf_state_def by simp
qed

lemma bucketValue_Some: "bucketValue m x v (Some c) = Inr (spec_bucketValue m x v c)"
  by (cases m) (auto simp: spec_bucketValue_def max_def)

lemma applyValues_ok:
  "i + length vs \<le> length cs \<Longrightarrow>
     \<exists>vs'. applyValues m x cs i vs = Inr vs' \<and> length vs' = length vs \<and>
       (\<forall>k < length vs. vs' ! k = spec_bucketValue m x (vs ! k) (cs ! (i + k)))"
proof (induction vs arbitrary: i)
  case Nil
  then show ?case by simp
next
  case (Cons v vs)
  from Cons.prems have "Suc i + length vs \<le> length cs" by simp
  from Cons.IH [OF this] obtain vs' where vs': "applyValues m x cs (Suc i) vs = Inr vs'"
    "length vs' = length vs"
    "\<forall>k < length vs. vs' ! k = spec_bucketValue m x (vs ! k) (cs ! (Suc i + k))" by blast
  from Cons.prems have i: "index cs i = Some (cs ! i)" by (simp add: index_def)
  have eq: "applyValues m x cs i (v # vs) = Inr (spec_bucketValue m x v (cs ! i) # vs')"
    by (simp add: i bucketValue_Some vs'(1))
  have "(spec_bucketValue m x v (cs ! i) # vs') ! k
          = spec_bucketValue m x ((v # vs) ! k) (cs ! (i + k))"
    if "k < length (v # vs)" for k
    using that vs'(3) by (cases k) simp_all
  with eq vs'(2) show ?case by simp
qed

lemma heap_shape_update:
  assumes "a < length h" and "expr r = expr (h ! a)"
    and "length (count r) = length (count (h ! a))"
    and "length (value r) = length (value (h ! a))"
  shows "heap_shape (h[a := r]) = heap_shape h"
proof -
  let ?f = "\<lambda>r. (expr r, length (count r), length (value r))"
  have "map ?f (h[a := r]) = (map ?f h)[a := ?f r]" by (rule map_update)
  also from assms have "?f r = map ?f h ! a" by simp
  also have "(map ?f h)[a := map ?f h ! a] = map ?f h" by (rule list_update_id)
  finally show ?thesis by (simp add: heap_shape_def)
qed

lemma wf_state_heap:
  assumes "wf_state sm" and "heap_shape h' = heap_shape (heap sm)"
  shows "wf_state (sm\<lparr>heap := h'\<rparr>)"
proof -
  have "runlist_shape (byExpr sm) = runlist_shape (byExpr sm)" ..
  from wf_state_shape [OF assms this] show ?thesis by simp
qed

lemma wf_state_byPath:
  assumes wf: "wf_state sm" and p: "map_of (byPath sm) p = Some a"
  shows "\<exists>rl. (expr (heap sm ! a), rl) \<in> set (byExpr sm) \<and> (p, a) \<in> set (path rl)
           \<and> a < length (heap sm)
           \<and> length (count (heap sm ! a)) = length (nextWriteTime rl)
           \<and> length (value (heap sm ! a)) = length (nextWriteTime rl)
           \<and> length (nextWriteTime rl)
               = length (Windows (rollupDefOf (rollup sm) (expr (heap sm ! a))))"
proof -
  from p have "(p, a) \<in> set (byPath sm)" by (rule map_of_SomeD)
  with wf obtain x where x: "x \<in> set (byExpr sm)" "(p, a) \<in> set (path (snd x))"
    unfolding wf_state_def by blast
  from wf x(1) have wr: "wf_runlist (rollup sm) (heap sm) x"
    unfolding wf_state_def by blast
  with x(2) have *: "a < length (heap sm)" "expr (heap sm ! a) = fst x"
    "length (count (heap sm ! a)) = length (nextWriteTime (snd x))"
    "length (value (heap sm ! a)) = length (nextWriteTime (snd x))"
    unfolding wf_runlist_def by force+
  from wr have "length (nextWriteTime (snd x)) = length (Windows (rollupDefOf (rollup sm) (fst x)))"
    by (simp add: wf_runlist_def)
  with * x show ?thesis
    by (intro exI [of _ "snd x"]) simp
qed

lemma applyMetric_ok:
  assumes wf: "wf_state sm" and p: "map_of (byPath sm) p = Some a"
  shows "\<exists>vs. applyMetric sm a x =
                Inr (sm\<lparr>heap := (heap sm)[a := (heap sm ! a)\<lparr>value := vs,
                                    count := map (\<lambda>c. c + 1) (count (heap sm ! a))\<rparr>]\<rparr>)
           \<and> length vs = length (value (heap sm ! a))
           \<and> (\<forall>i < length (value (heap sm ! a)).
                 vs ! i = spec_bucketValue (Method (rollupDefOf (rollup sm) (expr (heap sm ! a)))) x
                            (value (heap sm ! a) ! i) (count (heap sm ! a) ! i))
           \<and> wf_state (sm\<lparr>heap := (heap sm)[a := (heap sm ! a)\<lparr>value := vs,
                                    count := map (\<lambda>c. c + 1) (count (heap sm ! a))\<rparr>]\<rparr>)"
proof -
  let ?r = "heap sm ! a"
  from wf_state_byPath [OF wf p] have a: "a < length (heap sm)"
    and len: "length (value ?r) = length (count ?r)" by auto
  from len have "0 + length (value ?r) \<le> length (count ?r)" by simp
  from applyValues_ok [OF this, of "Method (rollupDefOf (rollup sm) (expr ?r))" x]
  obtain vs where vs: "applyValues (Method (rollupDefOf (rollup sm) (expr ?r))) x (count ?r) 0 (value ?r) = Inr vs"
    "length vs = length (value ?r)"
    "\<forall>k < length (value ?r). vs ! k = spec_bucketValue (Method (rollupDefOf (rollup sm) (expr ?r))) x
        (value ?r ! k) (count ?r ! k)" by auto
  let ?r' = "?r\<lparr>value := vs, count := map (\<lambda>c. c + 1) (count ?r)\<rparr>"
  from a vs(1) have eq: "applyMetric sm a x = Inr (sm\<lparr>heap := (heap sm)[a := ?r']\<rparr>)"
    by (simp add: applyMetric_def index_def)
  from a vs(2) have "heap_shape ((heap sm)[a := ?r']) = heap_shape (heap sm)"
    by (intro heap_shape_update) simp_all
  from wf_state_heap [OF wf this] have "wf_state (sm\<lparr>heap := (heap sm)[a := ?r']\<rparr>)" .
  with eq vs(2,3) show ?thesis by blast
qed

lemma locateRollup_ok:
  assumes wf: "wf_state sm"
  shows "\<exists>sm1 a. locateRollup sm m =
             Inr (sm1, a, if map_of (byPath sm) (Path m) = None then [m] else [])
           \<and> wf_state sm1 \<and> map_of (byPath sm1) (Path m) = Some a
           \<and> rollup sm1 = rollup sm
           \<and> fst ` set (byPath sm1) = insert (Path m) (fst ` set (byPath sm))"
proof (cases "map_of (byPath sm) (Path m)")
  case None
  from locateRollup_fresh [OF wf None] obtain ex rl where
    rl: "(ex, rl) \<in> set (byExpr sm)" and
    eq: "locateRollup sm m =
             Inr (sm\<lparr>heap := heap sm @ [\<lparr>expr = ex,
                                           count = replicate (length (nextWriteTime rl)) 0,
                                           value = replicate (length (nextWriteTime rl)) 0\<rparr>],
                     byPath := byPath sm @ [(Path m, length (heap sm))],
                     byExpr := AList.update ex
                                 (rl\<lparr>path := path rl @ [(Path m, length (heap sm))]\<rparr>)
                                 (byExpr sm)\<rparr>,
                  length (heap sm), [m])" by blast
  from None have "map_of (byPath sm @ [(Path m, length (heap sm))]) (Path m) = Some (length (heap sm))"
    by (rule map_of_snoc_new)
  with eq None wf_state_insert [OF wf None rl] show ?thesis
    by (intro exI conjI) (assumption | simp)+
next
  case (Some a)
  then have "Path m \<in> fst ` set (byPath sm)"
    by (metis map_of_eq_None_iff option.distinct(1))
  then have "fst ` set (byPath sm) = insert (Path m) (fst ` set (byPath sm))" by auto
  with Some wf locateRollup_found [OF Some] show ?thesis by simp
qed

lemma accumulate_ok:
  assumes wf: "wf_state sm"
  shows "\<exists>sm1 a vs.
           locateRollup sm m = Inr (sm1, a, if map_of (byPath sm) (Path m) = None then [m] else [])
           \<and> map_of (byPath sm1) (Path m) = Some a
           \<and> a < length (heap sm1)
           \<and> rollup sm1 = rollup sm
           \<and> fst ` set (byPath sm1) = insert (Path m) (fst ` set (byPath sm))
           \<and> accumulate sm m =
                Inr (sm1\<lparr>heap := (heap sm1)[a := (heap sm1 ! a)\<lparr>value := vs,
                                    count := map (\<lambda>c. c + 1) (count (heap sm1 ! a))\<rparr>]\<rparr>,
                     if map_of (byPath sm) (Path m) = None then [m] else [])
           \<and> length vs = length (value (heap sm1 ! a))
           \<and> length (value (heap sm1 ! a))
                = length (Windows (rollupDefOf (rollup sm) (expr (heap sm1 ! a))))
           \<and> length (count (heap sm1 ! a)) = length (value (heap sm1 ! a))
           \<and> (\<forall>i < length (value (heap sm1 ! a)).
                 vs ! i = spec_bucketValue (Method (rollupDefOf (rollup sm) (expr (heap sm1 ! a))))
                            (Value m) (value (heap sm1 ! a) ! i) (count (heap sm1 ! a) ! i))
           \<and> wf_state (sm1\<lparr>heap := (heap sm1)[a := (heap sm1 ! a)\<lparr>value := vs,
                                    count := map (\<lambda>c. c + 1) (count (heap sm1 ! a))\<rparr>]\<rparr>)"
proof -
  from locateRollup_ok [OF wf, of m] obtain sm1 a where
    loc: "locateRollup sm m = Inr (sm1, a, if map_of (byPath sm) (Path m) = None then [m] else [])"
    and wf1: "wf_state sm1" and p1: "map_of (byPath sm1) (Path m) = Some a"
    and cfg: "rollup sm1 = rollup sm"
    and keys: "fst ` set (byPath sm1) = insert (Path m) (fst ` set (byPath sm))" by blast
  from wf_state_byPath [OF wf1 p1] have a: "a < length (heap sm1)"
    and l1: "length (value (heap sm1 ! a))
                = length (Windows (rollupDefOf (rollup sm1) (expr (heap sm1 ! a))))"
    and l2: "length (count (heap sm1 ! a)) = length (value (heap sm1 ! a))" by auto
  from applyMetric_ok [OF wf1 p1, of "Value m"] obtain vs where
    ap: "applyMetric sm1 a (Value m) =
                Inr (sm1\<lparr>heap := (heap sm1)[a := (heap sm1 ! a)\<lparr>value := vs,
                                    count := map (\<lambda>c. c + 1) (count (heap sm1 ! a))\<rparr>]\<rparr>)"
    and vl: "length vs = length (value (heap sm1 ! a))"
    and vv: "\<forall>i < length (value (heap sm1 ! a)).
                 vs ! i = spec_bucketValue (Method (rollupDefOf (rollup sm1) (expr (heap sm1 ! a))))
                            (Value m) (value (heap sm1 ! a) ! i) (count (heap sm1 ! a) ! i)"
    and wf': "wf_state (sm1\<lparr>heap := (heap sm1)[a := (heap sm1 ! a)\<lparr>value := vs,
                                    count := map (\<lambda>c. c + 1) (count (heap sm1 ! a))\<rparr>]\<rparr>)"
    by blast
  from loc ap have acc: "accumulate sm m =
                Inr (sm1\<lparr>heap := (heap sm1)[a := (heap sm1 ! a)\<lparr>value := vs,
                                    count := map (\<lambda>c. c + 1) (count (heap sm1 ! a))\<rparr>]\<rparr>,
                     if map_of (byPath sm) (Path m) = None then [m] else [])"
    by (simp add: accumulate_def)
  from loc p1 a cfg keys acc vl l1 l2 vv wf' show ?thesis
    by (intro exI [of _ sm1] exI [of _ a] exI [of _ vs]) simp
qed

lemma ex_state_wf: "wf_state ex_state"
  by (simp add: wf_state_def wf_config_def wf_runlist_def ex_state_def ex_rollup_def
      ex_windows_def rollupDefOf_def)

lemma ex_accumulate:
  "accumulate ex_state ex_metric =
     Inr (ex_state\<lparr>heap := [\<lparr>expr = ROLLUP_CATCHALL, count = [4, 4], value = [10, 10]\<rparr>]\<rparr>, [])"
  by (simp add: accumulate_def locateRollup_def applyMetric_def index_def ex_state_def
      ex_metric_def ex_rollup_def rollupDefOf_def)

lemma ex_accumulate_new:
  "accumulate ex_state ex_metric_new =
     Inr (ex_state\<lparr>heap := [\<lparr>expr = ROLLUP_CATCHALL, count = [3, 3], value = [6, 6]\<rparr>,
                              \<lparr>expr = ROLLUP_CATCHALL, count = [1, 1], value = [5, 5]\<rparr>],
                    byPath := [(''a.b'', 0), (''c.d'', 1)],
                    byExpr := [(ROLLUP_CATCHALL,
                      \<lparr>nextWriteTime = [110 * Second, 120 * Second],
                       path = [(''a.b'', 0), (''c.d'', 1)]\<rparr>)]\<rparr>, [ex_metric_new])"
  by (simp add: accumulate_def locateRollup_def applyMetric_def index_def ex_state_def
      ex_metric_new_def ex_rollup_def rollupDefOf_def getExpression_def ex_windows_def Let_def)

lemma accumulateAll_ok:
  "wf_state sm \<Longrightarrow>
     \<exists>sm' sent. accumulateAll sm ms = Inr (sm', sent) \<and> wf_state sm'
       \<and> fst ` set (byPath sm') = fst ` set (byPath sm) \<union> Path ` set ms
       \<and> (\<forall>p. count_list (map Path sent) p
                 = (if p \<in> Path ` set ms \<and> p \<notin> fst ` set (byPath sm) then 1 else 0))"
proof (induction ms arbitrary: sm)
  case Nil
  then show ?case by simp
next
  case (Cons m ms)
  let ?s1 = "if map_of (byPath sm) (Path m) = None then [m] else []"
  from accumulate_ok [OF Cons.prems, of m] obtain sm1 where
    acc: "accumulate sm m = Inr (sm1, ?s1)" and wf1: "wf_state sm1"
    and keys1: "fst ` set (byPath sm1) = insert (Path m) (fst ` set (byPath sm))"
    by (elim exE conjE) (erule that, simp_all)
  from Cons.IH [OF wf1] obtain sm' sent where
    all: "accumulateAll sm1 ms = Inr (sm', sent)" and wf': "wf_state sm'"
    and keys': "fst ` set (byPath sm') = fst ` set (byPath sm1) \<union> Path ` set ms"
    and cnt: "\<forall>p. count_list (map Path sent) p
                 = (if p \<in> Path ` set ms \<and> p \<notin> fst ` set (byPath sm1) then 1 else 0)"
    by blast
  from acc all have eq: "accumulateAll sm (m # ms) = Inr (sm', ?s1 @ sent)" by simp
  from keys1 keys' have k: "fst ` set (byPath sm') = fst ` set (byPath sm) \<union> Path ` set (m # ms)"
    by auto
  have fresh: "(map_of (byPath sm) (Path m) = None) = (Path m \<notin> fst ` set (byPath sm))"
    by (simp add: map_of_eq_None_iff)
  have "count_list (map Path (?s1 @ sent)) p
          = (if p \<in> Path ` set (m # ms) \<and> p \<notin> fst ` set (byPath sm) then 1 else 0)" for p
    using cnt [rule_format, of p] keys1 fresh by (cases "p = Path m") auto
  with eq wf' k show ?case by blast
qed

text \<open>
  C5. In a well-formed state \<open>accumulate\<close> returns, and the sample is folded into the
  rollup of its path (the one found in \<open>byPath\<close>, or the fresh one): the rollup has one
  bucket per window of its expression, every bucket's value becomes what the method of
  the expression prescribes (\<open>spec_bucketValue\<close>: the running mean for AVERAGE, the
  larger of value and sample for MAX, the sample when the count is zero or the sample is
  smaller for MIN, the sum for SUM), and every bucket's count is incremented by one (in
  \<open>uint64\<close> arithmetic; by one as a number unless the count was at its maximum). No
  other rollup changes.
\<close>

theorem accumulate_folds_sample:
  assumes "wf_state sm"
  shows "\<exists>sm1 a sent sm'.
           locateRollup sm metric = Inr (sm1, a, sent)
           \<and> accumulate sm metric = Inr (sm', sent)
           \<and> map_of (byPath sm1) (Path metric) = Some a
           \<and> map_of (byPath sm') (Path metric) = Some a
           \<and> a < length (heap sm1) \<and> length (heap sm') = length (heap sm1)
           \<and> expr (heap sm' ! a) = expr (heap sm1 ! a)
           \<and> length (value (heap sm1 ! a))
                = length (Windows (rollupDefOf (rollup sm) (expr (heap sm1 ! a))))
           \<and> length (count (heap sm1 ! a)) = length (value (heap sm1 ! a))
           \<and> length (value (heap sm' ! a)) = length (value (heap sm1 ! a))
           \<and> length (count (heap sm' ! a)) = length (value (heap sm1 ! a))
           \<and> (\<forall>i < length (Windows (rollupDefOf (rollup sm) (expr (heap sm1 ! a)))).
                 value (heap sm' ! a) ! i
                   = spec_bucketValue (Method (rollupDefOf (rollup sm) (expr (heap sm1 ! a))))
                       (Value metric) (value (heap sm1 ! a) ! i) (count (heap sm1 ! a) ! i)
                 \<and> count (heap sm' ! a) ! i = count (heap sm1 ! a) ! i + 1
                 \<and> (count (heap sm1 ! a) ! i \<noteq> - 1 \<longrightarrow>
                      unat (count (heap sm' ! a) ! i) = Suc (unat (count (heap sm1 ! a) ! i))))
           \<and> (\<forall>b < length (heap sm1). b \<noteq> a \<longrightarrow> heap sm' ! b = heap sm1 ! b)"
proof -
  let ?sent = "if map_of (byPath sm) (Path metric) = None then [metric] else []"
  from accumulate_ok [OF assms, of metric] obtain sm1 a vs where
    loc: "locateRollup sm metric = Inr (sm1, a, ?sent)"
    and p1: "map_of (byPath sm1) (Path metric) = Some a"
    and a: "a < length (heap sm1)"
    and acc: "accumulate sm metric =
                Inr (sm1\<lparr>heap := (heap sm1)[a := (heap sm1 ! a)\<lparr>value := vs,
                                    count := map (\<lambda>c. c + 1) (count (heap sm1 ! a))\<rparr>]\<rparr>, ?sent)"
    and vl: "length vs = length (value (heap sm1 ! a))"
    and l1: "length (value (heap sm1 ! a))
                = length (Windows (rollupDefOf (rollup sm) (expr (heap sm1 ! a))))"
    and l2: "length (count (heap sm1 ! a)) = length (value (heap sm1 ! a))"
    and vv: "\<forall>i < length (value (heap sm1 ! a)).
                 vs ! i = spec_bucketValue (Method (rollupDefOf (rollup sm) (expr (heap sm1 ! a))))
                            (Value metric) (value (heap sm1 ! a) ! i) (count (heap sm1 ! a) ! i)"
    by (elim exE conjE) (erule that, simp_all)
  let ?sm' = "sm1\<lparr>heap := (heap sm1)[a := (heap sm1 ! a)\<lparr>value := vs,
                                    count := map (\<lambda>c. c + 1) (count (heap sm1 ! a))\<rparr>]\<rparr>"
  have suc: "unat (c + 1) = Suc (unat c)" if "c \<noteq> - 1" for c :: "64 word"
  proof -
    from that have "1 + c \<noteq> 0" by (simp add: eq_neg_iff_add_eq_0 add.commute)
    then have "unat (1 + c) = Suc (unat c)" by (rule unatSuc)
    then show ?thesis by (simp add: add.commute)
  qed
  have "value (heap ?sm' ! a) ! i
          = spec_bucketValue (Method (rollupDefOf (rollup sm) (expr (heap sm1 ! a))))
              (Value metric) (value (heap sm1 ! a) ! i) (count (heap sm1 ! a) ! i)
        \<and> count (heap ?sm' ! a) ! i = count (heap sm1 ! a) ! i + 1
        \<and> (count (heap sm1 ! a) ! i \<noteq> - 1 \<longrightarrow>
              unat (count (heap ?sm' ! a) ! i) = Suc (unat (count (heap sm1 ! a) ! i)))"
    if "i < length (Windows (rollupDefOf (rollup sm) (expr (heap sm1 ! a))))" for i
    using that a l1 l2 vv suc by simp
  moreover have "\<forall>b < length (heap sm1). b \<noteq> a \<longrightarrow> heap ?sm' ! b = heap sm1 ! b"
    by simp
  ultimately show ?thesis
    using loc acc p1 a vl l1 l2
    by (intro exI [of _ sm1] exI [of _ a] exI [of _ ?sent] exI [of _ ?sm']) simp
qed

theorem accumulate_folds_sample_witness:
  "wf_state ex_state
   \<and> (\<exists>sm'. accumulate ex_state ex_metric = Inr (sm', [])
          \<and> value (heap sm' ! 0) = [spec_bucketValue SUM_method 4 6 3, spec_bucketValue SUM_method 4 6 3]
          \<and> count (heap sm' ! 0) = [3 + 1, 3 + 1])
   \<and> spec_bucketValue SUM_method 4 6 3 = 10"
  using accumulate_folds_sample [OF ex_state_wf, of ex_metric] ex_state_wf
  by (simp add: ex_accumulate spec_bucketValue_def)

text \<open>
  C8. In a well-formed state \<open>accumulate\<close> returns, having sent the sample on the
  index-write channel exactly once when the sample's path was absent from \<open>byPath\<close> at
  the start of the call and nothing when it was present; afterwards the path is present.
  Hence over any run of samples each path that was absent at the start is sent exactly
  once, and no other path is sent.
\<close>

theorem accumulate_index_write_once:
  assumes "wf_state sm"
  shows "(\<exists>sm'. accumulate sm metric =
                  Inr (sm', if map_of (byPath sm) (Path metric) = None then [metric] else [])
              \<and> map_of (byPath sm') (Path metric) \<noteq> None \<and> wf_state sm')
       \<and> (\<exists>sm' sent. accumulateAll sm ms = Inr (sm', sent)
              \<and> (\<forall>p. count_list (map Path sent) p
                        = (if p \<in> Path ` set ms \<and> map_of (byPath sm) p = None then 1 else 0)))"
proof -
  from accumulate_ok [OF assms, of metric] obtain sm1 a vs where
    p1: "map_of (byPath sm1) (Path metric) = Some a"
    and acc: "accumulate sm metric =
                Inr (sm1\<lparr>heap := (heap sm1)[a := (heap sm1 ! a)\<lparr>value := vs,
                                    count := map (\<lambda>c. c + 1) (count (heap sm1 ! a))\<rparr>]\<rparr>,
                     if map_of (byPath sm) (Path metric) = None then [metric] else [])"
    and wf': "wf_state (sm1\<lparr>heap := (heap sm1)[a := (heap sm1 ! a)\<lparr>value := vs,
                                    count := map (\<lambda>c. c + 1) (count (heap sm1 ! a))\<rparr>]\<rparr>)"
    by (elim exE conjE) (erule that, simp_all)
  from acc p1 wf' have one: "\<exists>sm'. accumulate sm metric =
                  Inr (sm', if map_of (byPath sm) (Path metric) = None then [metric] else [])
              \<and> map_of (byPath sm') (Path metric) \<noteq> None \<and> wf_state sm'"
    by (intro exI [of _ "sm1\<lparr>heap := (heap sm1)[a := (heap sm1 ! a)\<lparr>value := vs,
                                    count := map (\<lambda>c. c + 1) (count (heap sm1 ! a))\<rparr>]\<rparr>"]) simp
  from accumulateAll_ok [OF assms, of ms] obtain sm2 sent where
    all: "accumulateAll sm ms = Inr (sm2, sent)"
    and cnt: "\<forall>p. count_list (map Path sent) p
                 = (if p \<in> Path ` set ms \<and> p \<notin> fst ` set (byPath sm) then 1 else 0)"
    by blast
  have "(map_of (byPath sm) p = None) = (p \<notin> fst ` set (byPath sm))" for p
    by (simp add: map_of_eq_None_iff)
  with cnt have "\<forall>p. count_list (map Path sent) p
                 = (if p \<in> Path ` set ms \<and> map_of (byPath sm) p = None then 1 else 0)"
    by simp
  with all have "\<exists>sm' sent. accumulateAll sm ms = Inr (sm', sent)
              \<and> (\<forall>p. count_list (map Path sent) p
                        = (if p \<in> Path ` set ms \<and> map_of (byPath sm) p = None then 1 else 0))"
    by blast
  with one show ?thesis by blast
qed

theorem accumulate_index_write_once_witness:
  "wf_state ex_state
   \<and> map_of (byPath ex_state) (Path ex_metric_new) = None
   \<and> (\<exists>sm'. accumulate ex_state ex_metric_new = Inr (sm', [ex_metric_new]))
   \<and> map_of (byPath ex_state) (Path ex_metric) = Some 0
   \<and> (\<exists>sm'. accumulate ex_state ex_metric = Inr (sm', []))"
  using accumulate_index_write_once [OF ex_state_wf, of ex_metric_new "[]"] ex_state_wf
  by (simp add: ex_accumulate ex_accumulate_new) (simp add: ex_state_def ex_metric_def ex_metric_new_def)

section \<open>Properties of flush\<close>

lemma zeroBucket_simps:
  "expr (zeroBucket i r) = expr r"
  "count (zeroBucket i r) = (count r)[i := 0]"
  "value (zeroBucket i r) = (value r)[i := 0]"
  by (simp_all add: zeroBucket_def)

lemma zeroBucket_idem: "zeroBucket i (zeroBucket i r) = zeroBucket i r"
  by (simp add: zeroBucket_def)

lemma heap_shape_zeroBucket:
  "a < length h \<Longrightarrow> heap_shape (h[a := zeroBucket i (h ! a)]) = heap_shape h"
  by (rule heap_shape_update) (simp_all add: zeroBucket_simps)

lemma flushPaths_Inr:
  "flushPaths i tbl st ps h rows = Inr (h', rows') \<Longrightarrow>
     heap_shape h' = heap_shape h \<and>
     (\<forall>a < length h. h' ! a = (if a \<in> snd ` set ps then zeroBucket i (h ! a) else h ! a))"
proof (induction ps arbitrary: h rows)
  case Nil
  then show ?case by simp
next
  case (Cons pa ps)
  obtain p a where pa: "pa = (p, a)" by (cases pa)
  from Cons.prems pa have a: "a < length h"
    by (auto simp: index_def split: if_splits)
  let ?h1 = "h[a := zeroBucket i (h ! a)]"
  from Cons.prems pa a obtain rows1 where
    rec: "flushPaths i tbl st ps ?h1 rows1 = Inr (h', rows')"
    by (auto simp: index_def split: if_splits)
  from Cons.IH [OF rec] have s: "heap_shape h' = heap_shape ?h1"
    and c: "\<forall>b < length ?h1. h' ! b = (if b \<in> snd ` set ps then zeroBucket i (?h1 ! b) else ?h1 ! b)"
    by blast+
  from s heap_shape_zeroBucket [OF a] have "heap_shape h' = heap_shape h" by simp
  moreover have "h' ! b = (if b \<in> snd ` set (pa # ps) then zeroBucket i (h ! b) else h ! b)"
    if "b < length h" for b
  proof (cases "b = a")
    case True
    with c a pa show ?thesis by (simp add: zeroBucket_idem)
  next
    case False
    with c that pa show ?thesis by simp
  qed
  ultimately show ?case by blast
qed

lemma flushPaths_rows:
  "distinct (map snd ps) \<Longrightarrow> flushPaths i tbl st ps h rows = Inr (h', rows') \<Longrightarrow>
     rows' = rows @ map (\<lambda>pa. (tbl, fst pa, st, value (h ! snd pa) ! i))
                        (filter (\<lambda>pa. 0 < count (h ! snd pa) ! i) ps)"
proof (induction ps arbitrary: h rows)
  case Nil
  then show ?case by simp
next
  case (Cons pa ps)
  obtain p a where pa: "pa = (p, a)" by (cases pa)
  from Cons.prems(2) pa have a: "a < length h" "i < length (count (h ! a))" "i < length (value (h ! a))"
    by (auto simp: index_def split: if_splits)
  let ?h1 = "h[a := zeroBucket i (h ! a)]"
  let ?rows1 = "if 0 < count (h ! a) ! i then rows @ [(tbl, p, st, value (h ! a) ! i)] else rows"
  from Cons.prems(2) pa a have rec: "flushPaths i tbl st ps ?h1 ?rows1 = Inr (h', rows')"
    by (simp add: index_def)
  from Cons.prems(1) pa have d: "distinct (map snd ps)" and na: "a \<notin> snd ` set ps"
    by simp_all
  from Cons.IH [OF d rec] have
    ih: "rows' = ?rows1 @ map (\<lambda>pa. (tbl, fst pa, st, value (?h1 ! snd pa) ! i))
                        (filter (\<lambda>pa. 0 < count (?h1 ! snd pa) ! i) ps)" .
  have same: "?h1 ! snd q = h ! snd q" if "q \<in> set ps" for q
  proof -
    from that na have "a \<noteq> snd q" by auto
    then show ?thesis by (rule nth_list_update_neq)
  qed
  have "map (\<lambda>pa. (tbl, fst pa, st, value (?h1 ! snd pa) ! i))
            (filter (\<lambda>pa. 0 < count (?h1 ! snd pa) ! i) ps)
        = map (\<lambda>pa. (tbl, fst pa, st, value (h ! snd pa) ! i))
            (filter (\<lambda>pa. 0 < count (h ! snd pa) ! i) ps)"
    using same by (intro map_cong filter_cong) auto
  with ih pa show ?case by simp
qed

lemma flushPaths_ok:
  "\<forall>pa \<in> set ps. snd pa < length h \<and> i < length (count (h ! snd pa))
      \<and> i < length (value (h ! snd pa)) \<Longrightarrow>
     \<exists>h' rows'. flushPaths i tbl st ps h rows = Inr (h', rows')"
proof (induction ps arbitrary: h rows)
  case Nil
  then show ?case by simp
next
  case (Cons pa ps)
  obtain p a where pa: "pa = (p, a)" by (cases pa)
  from Cons.prems pa have a: "a < length h" "i < length (count (h ! a))" "i < length (value (h ! a))"
    by simp_all
  let ?h1 = "h[a := zeroBucket i (h ! a)]"
  have "snd q < length ?h1 \<and> i < length (count (?h1 ! snd q)) \<and> i < length (value (?h1 ! snd q))"
    if "q \<in> set ps" for q
    using that Cons.prems a by (cases "snd q = a") (simp_all add: zeroBucket_simps)
  then have "\<forall>q \<in> set ps. snd q < length ?h1 \<and> i < length (count (?h1 ! snd q))
      \<and> i < length (value (?h1 ! snd q))" by blast
  from Cons.IH [OF this] pa a show ?case
    by (simp add: index_def)
qed

lemma flushWindows_Cons_cases:
  assumes "flushWindows defs t bt ex ps (i # is) (nwt, h, rows, nf) = Inr res"
  obtains (processed) w h1 rows1 where
      "time_Before (nwt ! i) bt \<or> t"
      "index (Windows (rollupDefOf defs ex)) i = Some w"
      "flushPaths i (Table w) (if t then bt else nwt ! i) ps h rows = Inr (h1, rows1)"
      "flushWindows defs t bt ex ps is
         (nwt[i := nextTimeBoundary bt (Window w)], h1, rows1,
          min nf (nwt[i := nextTimeBoundary bt (Window w)] ! i)) = Inr res"
    | (skipped)
      "\<not> (time_Before (nwt ! i) bt \<or> t)"
      "flushWindows defs t bt ex ps is (nwt, h, rows, min nf (nwt ! i)) = Inr res"
proof (cases "time_Before (nwt ! i) bt \<or> t")
  case True
  have m: "(if time_After nf x then x else nf) = min nf x" for x
    by (auto simp: time_After_def min_def)
  from assms True obtain w where w: "index (Windows (rollupDefOf defs ex)) i = Some w"
    by (cases "index (Windows (rollupDefOf defs ex)) i") (simp_all add: Let_def)
  from assms True w obtain h1 rows1 where
    fp: "flushPaths i (Table w) (if t then bt else nwt ! i) ps h rows = Inr (h1, rows1)"
    by (cases "flushPaths i (Table w) (if t then bt else nwt ! i) ps h rows")
       (auto simp: Let_def)
  from assms True w fp have
    "flushWindows defs t bt ex ps is
         (nwt[i := nextTimeBoundary bt (Window w)], h1, rows1,
          min nf (nwt[i := nextTimeBoundary bt (Window w)] ! i)) = Inr res"
    by (simp add: Let_def m)
  with True w fp show ?thesis by (rule processed)
next
  case False
  have m: "(if time_After nf x then x else nf) = min nf x" for x
    by (auto simp: time_After_def min_def)
  from assms False have "flushWindows defs t bt ex ps is (nwt, h, rows, min nf (nwt ! i)) = Inr res"
    by (simp add: Let_def m)
  with False show ?thesis by (rule skipped)
qed

lemma flushWindows_shape:
  "flushWindows defs t bt ex ps is (nwt, h, rows, nf) = Inr (nwt', h', rows', nf') \<Longrightarrow>
     length nwt' = length nwt \<and> heap_shape h' = heap_shape h"
proof (induction "is" arbitrary: nwt h rows nf)
  case Nil
  then show ?case by simp
next
  case (Cons i "is")
  from Cons.prems show ?case
  proof (cases rule: flushWindows_Cons_cases)
    case (processed w h1 rows1)
    from Cons.IH [OF processed(4)] flushPaths_Inr [OF processed(3)]
    show ?thesis by simp
  next
    case skipped
    from Cons.IH [OF skipped(2)] show ?thesis .
  qed
qed

lemma Min_insert_min:
  "finite S \<Longrightarrow> Min (insert (min a b) S) = Min (insert a (insert b S))"
  for a b :: int
  by (cases "S = {}") (simp_all add: min.assoc)

lemma flushWindows_nextFlush:
  "distinct is \<Longrightarrow>
   flushWindows defs t bt ex ps is (nwt, h, rows, nf) = Inr (nwt', h', rows', nf') \<Longrightarrow>
     nf' = Min (insert nf ((!) nwt' ` set is)) \<and> (\<forall>j. j \<notin> set is \<longrightarrow> nwt' ! j = nwt ! j)"
proof (induction "is" arbitrary: nwt h rows nf)
  case Nil
  then show ?case by simp
next
  case (Cons i "is")
  from Cons.prems(1) have d: "distinct is" and ni: "i \<notin> set is" by simp_all
  from Cons.prems(2) show ?case
  proof (cases rule: flushWindows_Cons_cases)
    case (processed w h1 rows1)
    let ?nwt1 = "nwt[i := nextTimeBoundary bt (Window w)]"
    from Cons.IH [OF d processed(4)] have
      nf: "nf' = Min (insert (min nf (?nwt1 ! i)) ((!) nwt' ` set is))"
      and fr: "\<forall>j. j \<notin> set is \<longrightarrow> nwt' ! j = ?nwt1 ! j" by blast+
    from fr ni have i: "nwt' ! i = ?nwt1 ! i" by blast
    from nf i have "nf' = Min (insert nf ((!) nwt' ` set (i # is)))"
      by (simp add: Min_insert_min)
    moreover from fr have "\<forall>j. j \<notin> set (i # is) \<longrightarrow> nwt' ! j = nwt ! j"
      by simp
    ultimately show ?thesis by blast
  next
    case skipped
    from Cons.IH [OF d skipped(2)] have
      nf: "nf' = Min (insert (min nf (nwt ! i)) ((!) nwt' ` set is))"
      and fr: "\<forall>j. j \<notin> set is \<longrightarrow> nwt' ! j = nwt ! j" by blast+
    from fr ni have i: "nwt' ! i = nwt ! i" by blast
    from nf i have "nf' = Min (insert nf ((!) nwt' ` set (i # is)))"
      by (simp add: Min_insert_min)
    with fr show ?thesis by simp
  qed
qed

lemma flushWindows_ok:
  assumes "\<forall>i \<in> set is. i < length (Windows (rollupDefOf defs ex))"
    and "\<forall>pa \<in> set ps. snd pa < length h \<and> (\<forall>i \<in> set is. i < length (count (h ! snd pa))
            \<and> i < length (value (h ! snd pa)))"
  shows "\<exists>res. flushWindows defs t bt ex ps is (nwt, h, rows, nf) = Inr res"
  using assms
proof (induction "is" arbitrary: nwt h rows nf)
  case Nil
  then show ?case by simp
next
  case (Cons i "is")
  have m: "(if time_After nf x then x else nf) = min nf x" for x
    by (auto simp: time_After_def min_def)
  from Cons.prems(1) have w: "index (Windows (rollupDefOf defs ex)) i
                                = Some (Windows (rollupDefOf defs ex) ! i)"
    by (simp add: index_def)
  from Cons.prems(1) have r1: "\<forall>i \<in> set is. i < length (Windows (rollupDefOf defs ex))"
    by simp
  from Cons.prems(2) have r2: "\<forall>pa \<in> set ps. snd pa < length h
      \<and> (\<forall>i \<in> set is. i < length (count (h ! snd pa)) \<and> i < length (value (h ! snd pa)))"
    by simp
  show ?case
  proof (cases "time_Before (nwt ! i) bt \<or> t")
    case True
    let ?w = "Windows (rollupDefOf defs ex) ! i"
    from Cons.prems(2) have "\<forall>pa \<in> set ps. snd pa < length h \<and> i < length (count (h ! snd pa))
      \<and> i < length (value (h ! snd pa))" by simp
    from flushPaths_ok [OF this, of "Table ?w" "if t then bt else nwt ! i" rows]
    obtain h1 rows1 where
      fp: "flushPaths i (Table ?w) (if t then bt else nwt ! i) ps h rows = Inr (h1, rows1)"
      by blast
    from flushPaths_Inr [OF fp] have hs: "heap_shape h1 = heap_shape h" by blast
    have "snd pa < length h1 \<and> (\<forall>i \<in> set is. i < length (count (h1 ! snd pa))
            \<and> i < length (value (h1 ! snd pa)))" if "pa \<in> set ps" for pa
    proof -
      from r2 that have a: "snd pa < length h" and
        l: "\<forall>i \<in> set is. i < length (count (h ! snd pa)) \<and> i < length (value (h ! snd pa))"
        by blast+
      from heap_shape_nth [OF hs a] heap_shape_length [OF hs] a l show ?thesis by simp
    qed
    then have "\<forall>pa \<in> set ps. snd pa < length h1 \<and> (\<forall>i \<in> set is. i < length (count (h1 ! snd pa))
            \<and> i < length (value (h1 ! snd pa)))" by blast
    from Cons.IH [OF r1 this] obtain res where
      "flushWindows defs t bt ex ps is
         (nwt[i := nextTimeBoundary bt (Window ?w)], h1, rows1,
          min nf (nwt[i := nextTimeBoundary bt (Window ?w)] ! i)) = Inr res" by blast
    with True w fp have "flushWindows defs t bt ex ps (i # is) (nwt, h, rows, nf) = Inr res"
      by (simp add: Let_def m)
    then show ?thesis by blast
  next
    case False
    from Cons.IH [OF r1 r2] obtain res where
      "flushWindows defs t bt ex ps is (nwt, h, rows, min nf (nwt ! i)) = Inr res" by blast
    with False have "flushWindows defs t bt ex ps (i # is) (nwt, h, rows, nf) = Inr res"
      by (simp add: Let_def m)
    then show ?thesis by blast
  qed
qed

lemma fold_zeroBucket_simps:
  "expr (fold zeroBucket js r) = expr r"
  "length (count (fold zeroBucket js r)) = length (count r)"
  "length (value (fold zeroBucket js r)) = length (value r)"
  by (induction js arbitrary: r) (simp_all add: zeroBucket_simps)

lemma fold_zeroBucket_count:
  "j < length (count r) \<Longrightarrow>
     count (fold zeroBucket js r) ! j = (if j \<in> set js then 0 else count r ! j)"
  by (induction js arbitrary: r) (auto simp: zeroBucket_simps nth_list_update)

lemma fold_zeroBucket_value:
  "j < length (value r) \<Longrightarrow>
     value (fold zeroBucket js r) ! j = (if j \<in> set js then 0 else value r ! j)"
  by (induction js arbitrary: r) (auto simp: zeroBucket_simps nth_list_update)

lemma flushWindows_heap:
  "flushWindows defs True bt ex ps is (nwt, h, rows, nf) = Inr (nwt', h', rows', nf') \<Longrightarrow>
     \<forall>a < length h. h' ! a = (if a \<in> snd ` set ps then fold zeroBucket is (h ! a) else h ! a)"
proof (induction "is" arbitrary: nwt h rows nf)
  case Nil
  then show ?case by simp
next
  case (Cons i "is")
  from Cons.prems show ?case
  proof (cases rule: flushWindows_Cons_cases)
    case (processed w h1 rows1)
    from flushPaths_Inr [OF processed(3)] have hs: "heap_shape h1 = heap_shape h"
      and c1: "\<forall>a < length h. h1 ! a = (if a \<in> snd ` set ps then zeroBucket i (h ! a) else h ! a)"
      by blast+
    from Cons.IH [OF processed(4)] heap_shape_length [OF hs] have
      "\<forall>a < length h. h' ! a = (if a \<in> snd ` set ps then fold zeroBucket is (h1 ! a) else h1 ! a)"
      by simp
    with c1 show ?thesis by simp
  next
    case skipped
    then show ?thesis by simp
  qed
qed

lemma flushWindows_rows:
  "distinct is \<Longrightarrow> distinct (map snd ps) \<Longrightarrow> \<forall>pa \<in> set ps. snd pa < length h \<Longrightarrow>
   flushWindows defs True bt ex ps is (nwt, h, rows, nf) = Inr (nwt', h', rows', nf') \<Longrightarrow>
     rows' = rows @ concat (map (\<lambda>i. map (\<lambda>pa. (Table (Windows (rollupDefOf defs ex) ! i), fst pa, bt,
                                               value (h ! snd pa) ! i))
                                      (filter (\<lambda>pa. 0 < count (h ! snd pa) ! i) ps)) is)"
proof (induction "is" arbitrary: nwt h rows nf)
  case Nil
  then show ?case by simp
next
  case (Cons i "is")
  from Cons.prems(1) have d: "distinct is" and ni: "i \<notin> set is" by simp_all
  from Cons.prems(4) show ?case
  proof (cases rule: flushWindows_Cons_cases)
    case (processed w h1 rows1)
    from processed(2) have w: "w = Windows (rollupDefOf defs ex) ! i"
      by (auto simp: index_def split: if_splits)
    from flushPaths_Inr [OF processed(3)] have hs: "heap_shape h1 = heap_shape h"
      and c1: "\<forall>a < length h. h1 ! a = (if a \<in> snd ` set ps then zeroBucket i (h ! a) else h ! a)"
      by blast+
    from flushPaths_rows [OF Cons.prems(2) processed(3)] w have
      r1: "rows1 = rows @ map (\<lambda>pa. (Table (Windows (rollupDefOf defs ex) ! i), fst pa, bt,
                                     value (h ! snd pa) ! i))
                        (filter (\<lambda>pa. 0 < count (h ! snd pa) ! i) ps)"
      by simp
    from Cons.prems(3) heap_shape_length [OF hs] have b1: "\<forall>pa \<in> set ps. snd pa < length h1"
      by simp
    from Cons.IH [OF d Cons.prems(2) b1 processed(4)] have
      ih: "rows' = rows1 @ concat (map (\<lambda>i. map (\<lambda>pa. (Table (Windows (rollupDefOf defs ex) ! i), fst pa, bt,
                                               value (h1 ! snd pa) ! i))
                                      (filter (\<lambda>pa. 0 < count (h1 ! snd pa) ! i) ps)) is)" .
    have same: "value (h1 ! snd pa) ! j = value (h ! snd pa) ! j
                \<and> count (h1 ! snd pa) ! j = count (h ! snd pa) ! j"
      if "pa \<in> set ps" "j \<in> set is" for pa j
    proof -
      from that(1) Cons.prems(3) c1 have "h1 ! snd pa = zeroBucket i (h ! snd pa)" by simp
      moreover from that(2) ni have "i \<noteq> j" by auto
      ultimately show ?thesis by (simp add: zeroBucket_simps)
    qed
    have "map (\<lambda>i. map (\<lambda>pa. (Table (Windows (rollupDefOf defs ex) ! i), fst pa, bt,
                                               value (h1 ! snd pa) ! i))
                                      (filter (\<lambda>pa. 0 < count (h1 ! snd pa) ! i) ps)) is
          = map (\<lambda>i. map (\<lambda>pa. (Table (Windows (rollupDefOf defs ex) ! i), fst pa, bt,
                                               value (h ! snd pa) ! i))
                                      (filter (\<lambda>pa. 0 < count (h ! snd pa) ! i) ps)) is"
      using same by (intro map_cong filter_cong refl) auto
    with ih r1 show ?thesis by simp
  next
    case skipped
    then show ?thesis by simp
  qed
qed

lemma flushExprs_Cons_cases:
  assumes "flushExprs defs t bt (x # rest) (h, rows, nf) = Inr res"
  obtains nwt1 h1 rows1 nf1 rest' h' rows' nf' where
    "flushWindows defs t bt (fst x) (path (snd x)) [0..<length (nextWriteTime (snd x))]
       (nextWriteTime (snd x), h, rows, nf) = Inr (nwt1, h1, rows1, nf1)"
    "flushExprs defs t bt rest (h1, rows1, nf1) = Inr (rest', h', rows', nf')"
    "res = ((fst x, (snd x)\<lparr>nextWriteTime := nwt1\<rparr>) # rest', h', rows', nf')"
proof -
  obtain ex rl where x: "x = (ex, rl)" by (cases x)
  from assms x obtain nwt1 h1 rows1 nf1 where
    fw: "flushWindows defs t bt ex (path rl) [0..<length (nextWriteTime rl)]
           (nextWriteTime rl, h, rows, nf) = Inr (nwt1, h1, rows1, nf1)"
    by (cases "flushWindows defs t bt ex (path rl) [0..<length (nextWriteTime rl)]
           (nextWriteTime rl, h, rows, nf)") auto
  from assms x fw obtain rest' h' rows' nf' where
    fe: "flushExprs defs t bt rest (h1, rows1, nf1) = Inr (rest', h', rows', nf')"
    by (cases "flushExprs defs t bt rest (h1, rows1, nf1)") auto
  from assms x fw fe have "res = ((ex, rl\<lparr>nextWriteTime := nwt1\<rparr>) # rest', h', rows', nf')"
    by simp
  with that [of nwt1 h1 rows1 nf1 rest' h' rows' nf'] fw fe x show ?thesis by simp
qed

lemma flushExprs_shape:
  "flushExprs defs t bt be (h, rows, nf) = Inr (be', h', rows', nf') \<Longrightarrow>
     runlist_shape be' = runlist_shape be \<and> heap_shape h' = heap_shape h"
proof (induction be arbitrary: h rows nf be' h' rows' nf')
  case Nil
  then show ?case by simp
next
  case (Cons x rest)
  from Cons.prems show ?case
  proof (cases rule: flushExprs_Cons_cases)
    case (1 nwt1 h1 rows1 nf1 rest' h2 rows2 nf2)
    from flushWindows_shape [OF 1(1)] have l: "length nwt1 = length (nextWriteTime (snd x))"
      and hs1: "heap_shape h1 = heap_shape h" by blast+
    from Cons.IH [OF 1(2)] have rs: "runlist_shape rest' = runlist_shape rest"
      and hs2: "heap_shape h2 = heap_shape h1" by blast+
    from 1(3) have "be' = (fst x, (snd x)\<lparr>nextWriteTime := nwt1\<rparr>) # rest'" "h' = h2" by simp_all
    with l hs1 rs hs2 show ?thesis by (simp add: runlist_shape_def)
  qed
qed

lemma Min_insert_Min:
  "finite A \<Longrightarrow> finite B \<Longrightarrow> Min (insert (Min (insert a A)) B) = Min (insert a (A \<union> B))"
  for a :: int
proof (cases "B = {}")
  case True
  then show ?thesis by simp
next
  case False
  assume fin: "finite A" "finite B"
  have "Min (insert a (A \<union> B)) = Min (insert a A \<union> B)" by simp
  also from fin False have "\<dots> = min (Min (insert a A)) (Min B)"
    by (intro Min_Un) simp_all
  also from fin False have "\<dots> = Min (insert (Min (insert a A)) B)"
    by simp
  finally show ?thesis by simp
qed

lemma flushExprs_nextFlush:
  "flushExprs defs t bt be (h, rows, nf) = Inr (be', h', rows', nf') \<Longrightarrow>
     nf' = Min (insert nf (\<Union>x \<in> set be'. set (nextWriteTime (snd x))))"
proof (induction be arbitrary: h rows nf be' h' rows' nf')
  case Nil
  then show ?case by simp
next
  case (Cons x rest)
  from Cons.prems show ?case
  proof (cases rule: flushExprs_Cons_cases)
    case (1 nwt1 h1 rows1 nf1 rest' h2 rows2 nf2)
    from flushWindows_shape [OF 1(1)] have l: "length nwt1 = length (nextWriteTime (snd x))"
      by blast
    have "distinct [0..<length (nextWriteTime (snd x))]" by simp
    from flushWindows_nextFlush [OF this 1(1)] have
      "nf1 = Min (insert nf ((!) nwt1 ` set [0..<length (nextWriteTime (snd x))]))" by blast
    also from l have "(!) nwt1 ` set [0..<length (nextWriteTime (snd x))] = set nwt1"
      by (simp add: nth_image)
    finally have nf1: "nf1 = Min (insert nf (set nwt1))" .
    from Cons.IH [OF 1(2)] have
      "nf2 = Min (insert nf1 (\<Union>x \<in> set rest'. set (nextWriteTime (snd x))))" .
    with nf1 have "nf2 = Min (insert nf (set nwt1 \<union> (\<Union>x \<in> set rest'. set (nextWriteTime (snd x)))))"
      by (simp add: Min_insert_Min)
    moreover from 1(3) have "be' = (fst x, (snd x)\<lparr>nextWriteTime := nwt1\<rparr>) # rest'" "nf' = nf2"
      by simp_all
    ultimately show ?thesis by simp
  qed
qed

lemma wf_runlist_windows_ok:
  assumes "wf_runlist defs h x"
  shows "\<forall>i \<in> set [0..<length (nextWriteTime (snd x))]. i < length (Windows (rollupDefOf defs (fst x)))"
    and "\<forall>pa \<in> set (path (snd x)). snd pa < length h
           \<and> (\<forall>i \<in> set [0..<length (nextWriteTime (snd x))]. i < length (count (h ! snd pa))
                \<and> i < length (value (h ! snd pa)))"
  using assms by (auto simp: wf_runlist_def)

lemma flushExprs_ok:
  "\<forall>x \<in> set be. wf_runlist defs h x \<Longrightarrow>
     \<exists>res. flushExprs defs t bt be (h, rows, nf) = Inr res"
proof (induction be arbitrary: h rows nf)
  case Nil
  then show ?case by simp
next
  case (Cons x rest)
  obtain ex rl where x: "x = (ex, rl)" by (cases x)
  from Cons.prems have wx: "wf_runlist defs h x" by simp
  from flushWindows_ok [OF wf_runlist_windows_ok [OF wx],
      of t bt "nextWriteTime (snd x)" rows nf]
  obtain res1 where
    "flushWindows defs t bt (fst x) (path (snd x)) [0..<length (nextWriteTime (snd x))]
           (nextWriteTime (snd x), h, rows, nf) = Inr res1" by blast
  then obtain nwt1 h1 rows1 nf1 where
    fw: "flushWindows defs t bt (fst x) (path (snd x)) [0..<length (nextWriteTime (snd x))]
           (nextWriteTime (snd x), h, rows, nf) = Inr (nwt1, h1, rows1, nf1)"
    by (cases res1) auto
  from flushWindows_shape [OF fw] have hs: "heap_shape h1 = heap_shape h" by blast
  have "\<forall>y \<in> set rest. wf_runlist defs h1 y"
  proof
    fix y assume "y \<in> set rest"
    with Cons.prems have "wf_runlist defs h y" by simp
    from wf_runlist_shape [OF this hs] show "wf_runlist defs h1 y" by simp
  qed
  from Cons.IH [OF this, of rows1 nf1] obtain res2 where
    "flushExprs defs t bt rest (h1, rows1, nf1) = Inr res2" by blast
  then obtain rest' st where
    "flushExprs defs t bt rest (h1, rows1, nf1) = Inr (rest', st)"
    by (cases res2) auto
  with fw x have "flushExprs defs t bt (x # rest) (h, rows, nf)
                    = Inr ((ex, rl\<lparr>nextWriteTime := nwt1\<rparr>) # rest', st)"
    by simp
  then show ?case by blast
qed

lemma bucketRows_cong:
  assumes "\<forall>pa \<in> set (path (snd x)). h1 ! snd pa = h ! snd pa"
  shows "bucketRows defs bt h1 x = bucketRows defs bt h x"
proof -
  have "map (\<lambda>pa. (Table (Windows (rollupDefOf defs (fst x)) ! i), fst pa, bt, value (h1 ! snd pa) ! i))
            (filter (\<lambda>pa. 0 < count (h1 ! snd pa) ! i) (path (snd x)))
        = map (\<lambda>pa. (Table (Windows (rollupDefOf defs (fst x)) ! i), fst pa, bt, value (h ! snd pa) ! i))
            (filter (\<lambda>pa. 0 < count (h ! snd pa) ! i) (path (snd x)))" for i
    using assms by (intro map_cong filter_cong refl) auto
  then show ?thesis by (simp add: bucketRows_def)
qed

lemma wf_runlist_disjoint:
  assumes "wf_runlist defs h x" and "wf_runlist defs h y" and "fst x \<noteq> fst y"
    and "pa \<in> set (path (snd y))"
  shows "snd pa \<notin> snd ` set (path (snd x))"
proof
  assume "snd pa \<in> snd ` set (path (snd x))"
  then obtain qa where qa: "qa \<in> set (path (snd x))" "snd qa = snd pa" by auto
  from assms(1) qa have "expr (h ! snd pa) = fst x" by (auto simp: wf_runlist_def)
  moreover from assms(2,4) have "expr (h ! snd pa) = fst y" by (auto simp: wf_runlist_def)
  ultimately show False using assms(3) by simp
qed

lemma flushExprs_terminating:
  "distinct (map fst be) \<Longrightarrow> \<forall>x \<in> set be. wf_runlist defs h x \<Longrightarrow>
   flushExprs defs True bt be (h, rows, nf) = Inr (be', h', rows', nf') \<Longrightarrow>
     rows' = rows @ concat (map (bucketRows defs bt h) be)
     \<and> (\<forall>x \<in> set be. \<forall>pa \<in> set (path (snd x)).
           h' ! snd pa = fold zeroBucket [0..<length (nextWriteTime (snd x))] (h ! snd pa))
     \<and> (\<forall>a < length h. a \<notin> (\<Union>x \<in> set be. snd ` set (path (snd x))) \<longrightarrow> h' ! a = h ! a)"
proof (induction be arbitrary: h rows nf be' h' rows' nf')
  case Nil
  then show ?case by simp
next
  case (Cons x rest)
  from Cons.prems(1) have d: "distinct (map fst rest)" and nx: "fst x \<notin> fst ` set rest"
    by simp_all
  from Cons.prems(2) have wx: "wf_runlist defs h x" and wr: "\<forall>y \<in> set rest. wf_runlist defs h y"
    by simp_all
  from wx have dp: "distinct (map snd (path (snd x)))"
    and inb: "\<forall>pa \<in> set (path (snd x)). snd pa < length h"
    by (simp_all add: wf_runlist_def)
  from Cons.prems(3) show ?case
  proof (cases rule: flushExprs_Cons_cases)
    case (1 nwt1 h1 rows1 nf1 rest' h2 rows2 nf2)
    from 1(3) have res: "h' = h2" "rows' = rows2" by simp_all
    from flushWindows_shape [OF 1(1)] have hs: "heap_shape h1 = heap_shape h" by blast
    then have len1: "length h1 = length h" by (rule heap_shape_length)
    have di: "distinct [0..<length (nextWriteTime (snd x))]" by simp
    from flushWindows_rows [OF di dp inb 1(1)] have
      rows1: "rows1 = rows @ bucketRows defs bt h x"
      by (simp add: bucketRows_def)
    from flushWindows_heap [OF 1(1)] have
      h1: "\<forall>a < length h. h1 ! a = (if a \<in> snd ` set (path (snd x))
              then fold zeroBucket [0..<length (nextWriteTime (snd x))] (h ! a) else h ! a)" .
    have wr1: "\<forall>y \<in> set rest. wf_runlist defs h1 y"
    proof
      fix y assume "y \<in> set rest"
      with wr have "wf_runlist defs h y" by simp
      from wf_runlist_shape [OF this hs] show "wf_runlist defs h1 y" by simp
    qed
    have same: "h1 ! snd pa = h ! snd pa \<and> snd pa < length h"
      if "y \<in> set rest" "pa \<in> set (path (snd y))" for y pa
    proof -
      from that(1) wr have wy: "wf_runlist defs h y" by simp
      from that(1) nx have "fst x \<noteq> fst y" by auto
      from wf_runlist_disjoint [OF wx wy this that(2)]
      have "snd pa \<notin> snd ` set (path (snd x))" .
      moreover from wy that(2) have "snd pa < length h" by (simp add: wf_runlist_def)
      ultimately show ?thesis using h1 by simp
    qed
    from Cons.IH [OF d wr1 1(2)] have
      ih1: "rows2 = rows1 @ concat (map (bucketRows defs bt h1) rest)"
      and ih2: "\<forall>y \<in> set rest. \<forall>pa \<in> set (path (snd y)).
           h2 ! snd pa = fold zeroBucket [0..<length (nextWriteTime (snd y))] (h1 ! snd pa)"
      and ih3: "\<forall>a < length h1. a \<notin> (\<Union>y \<in> set rest. snd ` set (path (snd y))) \<longrightarrow> h2 ! a = h1 ! a"
      by blast+
    have "map (bucketRows defs bt h1) rest = map (bucketRows defs bt h) rest"
      using same by (intro map_cong refl bucketRows_cong) blast
    with ih1 rows1 res have c1: "rows' = rows @ concat (map (bucketRows defs bt h) (x # rest))"
      by simp
    have c2: "h' ! snd pa = fold zeroBucket [0..<length (nextWriteTime (snd y))] (h ! snd pa)"
      if "y \<in> set (x # rest)" "pa \<in> set (path (snd y))" for y pa
    proof (cases "y \<in> set rest")
      case True
      with ih2 that(2) same [OF True that(2)] res show ?thesis by simp
    next
      case False
      with that(1) have y: "y = x" by simp
      from that(2) y inb have a: "snd pa < length h" by simp
      have "snd pa \<notin> (\<Union>z \<in> set rest. snd ` set (path (snd z)))"
      proof
        assume "snd pa \<in> (\<Union>z \<in> set rest. snd ` set (path (snd z)))"
        then obtain z qa where z: "z \<in> set rest" "qa \<in> set (path (snd z))" "snd qa = snd pa"
          by auto
        from z(1) wr have wz: "wf_runlist defs h z" by simp
        from z(1) nx have "fst x \<noteq> fst z" by auto
        from wf_runlist_disjoint [OF wx wz this z(2)] z(3) that(2) y show False by auto
      qed
      with ih3 a len1 have "h2 ! snd pa = h1 ! snd pa" by simp
      with h1 a that(2) y res show ?thesis by simp
    qed
    have c3: "h' ! a = h ! a"
      if "a < length h" "a \<notin> (\<Union>y \<in> set (x # rest). snd ` set (path (snd y)))" for a
    proof -
      from that(2) have "a \<notin> snd ` set (path (snd x))"
        and "a \<notin> (\<Union>y \<in> set rest. snd ` set (path (snd y)))" by simp_all
      with ih3 h1 that(1) len1 res show ?thesis by simp
    qed
    from c1 c2 c3 show ?thesis by blast
  qed
qed

section \<open>The two-level indexing invariant\<close>

lemma two_level_inv_maps:
  "two_level_inv sm \<longleftrightarrow>
     (\<forall>p. (map_of (byPath sm) p \<noteq> None) =
           (\<exists>e rl. map_of (byExpr sm) e = Some rl \<and> map_of (path rl) p \<noteq> None)) \<and>
     (\<forall>e rl p a. map_of (byExpr sm) e = Some rl \<longrightarrow> map_of (path rl) p = Some a \<longrightarrow>
        map_of (byPath sm) p = Some a)"
proof -
  have "viewByExpr (sm\<lparr>heap := h\<rparr>) e p = viewByPath (sm\<lparr>heap := h\<rparr>) p"
    if "map_of (byExpr sm) e = Some rl" "map_of (path rl) p = Some a"
      "map_of (byPath sm) p = Some a" for e rl p a h
    using that by (simp add: viewByExpr_def viewByPath_def)
  then show ?thesis
    unfolding two_level_inv_def by blast
qed

lemma two_level_inv_reset: "two_level_inv (resetRollupData sm bt)"
proof -
  have "path rl = []"
    if "map_of (byExpr (resetRollupData sm bt)) e = Some rl" for e rl
  proof -
    from that have "(e, rl) \<in> set (byExpr (resetRollupData sm bt))" by (rule map_of_SomeD)
    then show ?thesis by (auto simp: resetRollupData_def)
  qed
  then have "map_of (path rl) p = None"
    if "map_of (byExpr (resetRollupData sm bt)) e = Some rl" for e rl p
    using that by simp
  moreover have "map_of (byPath (resetRollupData sm bt)) p = None" for p
    by (simp add: resetRollupData_def)
  ultimately show ?thesis
    unfolding two_level_inv_maps by simp
qed

lemma two_level_inv_cong:
  assumes "two_level_inv sm" and "byPath sm' = byPath sm"
    and "map_of (byExpr sm') = map_of (byExpr sm)"
  shows "two_level_inv sm'"
  using assms unfolding two_level_inv_maps by simp

lemma two_level_inv_locate:
  assumes inv: "two_level_inv sm" and loc: "locateRollup sm m = Inr (sm1, a, sent)"
  shows "two_level_inv sm1"
proof (cases "map_of (byPath sm) (Path m)")
  case (Some b)
  with loc have "sm1 = sm" by (simp add: locateRollup_def)
  with inv show ?thesis by simp
next
  case None
  from loc None obtain ex where ex: "getExpression sm (Path m) = Inr ex"
    by (cases "getExpression sm (Path m)") (simp_all add: locateRollup_def)
  from loc None ex obtain rl where rl: "map_of (byExpr sm) ex = Some rl"
    by (cases "map_of (byExpr sm) ex") (simp_all add: locateRollup_def Let_def)
  let ?p = "Path m"
  let ?a = "length (heap sm)"
  let ?rl' = "rl\<lparr>path := AList.update ?p ?a (path rl)\<rparr>"
  from loc None ex rl have bp: "map_of (byPath sm1) = (map_of (byPath sm))(?p \<mapsto> ?a)"
    and be: "map_of (byExpr sm1) = (map_of (byExpr sm))(ex \<mapsto> ?rl')"
    by (auto simp: locateRollup_def Let_def update_conv')
  note pr = update_conv' [of ?p ?a "path rl"]
  from inv have i1: "\<And>p. (map_of (byPath sm) p \<noteq> None) =
           (\<exists>e rl. map_of (byExpr sm) e = Some rl \<and> map_of (path rl) p \<noteq> None)"
    and i2: "\<And>e rl p a. map_of (byExpr sm) e = Some rl \<Longrightarrow> map_of (path rl) p = Some a \<Longrightarrow>
        map_of (byPath sm) p = Some a"
    unfolding two_level_inv_maps by blast+
  have c1: "(map_of (byPath sm1) p \<noteq> None) =
           (\<exists>e rl. map_of (byExpr sm1) e = Some rl \<and> map_of (path rl) p \<noteq> None)" for p
  proof (cases "p = ?p")
    case True
    have "map_of (byExpr sm1) ex = Some ?rl' \<and> map_of (path ?rl') ?p \<noteq> None"
      by (simp add: be pr)
    then have "\<exists>e rl. map_of (byExpr sm1) e = Some rl \<and> map_of (path rl) ?p \<noteq> None"
      by blast
    with True show ?thesis by (simp add: bp)
  next
    case False
    show ?thesis
    proof
      assume "map_of (byPath sm1) p \<noteq> None"
      with False have "map_of (byPath sm) p \<noteq> None" by (simp add: bp)
      with i1 obtain e r where er: "map_of (byExpr sm) e = Some r" "map_of (path r) p \<noteq> None"
        by blast
      show "\<exists>e rl. map_of (byExpr sm1) e = Some rl \<and> map_of (path rl) p \<noteq> None"
      proof (cases "e = ex")
        case True
        with er rl have "map_of (path rl) p \<noteq> None" by simp
        with False have "map_of (byExpr sm1) ex = Some ?rl' \<and> map_of (path ?rl') p \<noteq> None"
          by (simp add: be pr)
        then show ?thesis by blast
      next
        case False
        with er have "map_of (byExpr sm1) e = Some r \<and> map_of (path r) p \<noteq> None"
          by (simp add: be)
        then show ?thesis by blast
      qed
    next
      assume "\<exists>e rl. map_of (byExpr sm1) e = Some rl \<and> map_of (path rl) p \<noteq> None"
      then obtain e r where er: "map_of (byExpr sm1) e = Some r" "map_of (path r) p \<noteq> None"
        by blast
      have "\<exists>e r. map_of (byExpr sm) e = Some r \<and> map_of (path r) p \<noteq> None"
      proof (cases "e = ex")
        case True
        with er be have "r = ?rl'" by simp
        with er(2) False have "map_of (path rl) p \<noteq> None" by (simp add: pr)
        with rl show ?thesis by blast
      next
        case False
        with er be show ?thesis by auto
      qed
      with i1 have "map_of (byPath sm) p \<noteq> None" by blast
      with False show "map_of (byPath sm1) p \<noteq> None" by (simp add: bp)
    qed
  qed
  have c2: "map_of (byPath sm1) p = Some b"
    if "map_of (byExpr sm1) e = Some r" "map_of (path r) p = Some b" for e r p b
  proof (cases "e = ex")
    case True
    with that be have r: "r = ?rl'" by simp
    show ?thesis
    proof (cases "p = ?p")
      case True
      with that(2) r show ?thesis by (simp add: bp pr)
    next
      case False
      with that(2) r have "map_of (path rl) p = Some b" by (simp add: pr)
      from i2 [OF rl this] False show ?thesis by (simp add: bp)
    qed
  next
    case False
    with that be have "map_of (byExpr sm) e = Some r" by simp
    from i2 [OF this that(2)] have b: "map_of (byPath sm) p = Some b" .
    with None have "p \<noteq> ?p" by auto
    with b show ?thesis by (simp add: bp)
  qed
  from c1 c2 show ?thesis
    unfolding two_level_inv_maps by blast
qed

lemma two_level_inv_apply:
  assumes "two_level_inv sm1" and "applyMetric sm1 a x = Inr sm'"
  shows "two_level_inv sm'"
proof -
  from assms(2) obtain r where r: "index (heap sm1) a = Some r"
    by (cases "index (heap sm1) a") (simp_all add: applyMetric_def)
  from assms(2) r obtain vs where
    "applyValues (Method (rollupDefOf (rollup sm1) (expr r))) x (count r) 0 (value r) = Inr vs"
    by (cases "applyValues (Method (rollupDefOf (rollup sm1) (expr r))) x (count r) 0 (value r)")
       (simp_all add: applyMetric_def)
  with assms(2) r have
    "sm' = sm1\<lparr>heap := (heap sm1)[a := r\<lparr>value := vs, count := map (\<lambda>c. c + 1) (count r)\<rparr>]\<rparr>"
    by (simp add: applyMetric_def)
  then have "byPath sm' = byPath sm1" "map_of (byExpr sm') = map_of (byExpr sm1)"
    by simp_all
  with assms(1) show ?thesis by (rule two_level_inv_cong)
qed

lemma two_level_inv_accumulate:
  assumes "two_level_inv sm" and "accumulate sm m = Inr (sm', sent)"
  shows "two_level_inv sm'"
proof -
  from assms(2) obtain sm1 a s1 where loc: "locateRollup sm m = Inr (sm1, a, s1)"
    and ap: "applyMetric sm1 a (Value m) = Inr sm'"
    by (auto simp: accumulate_def split: sum.splits)
  from two_level_inv_apply [OF two_level_inv_locate [OF assms(1) loc] ap] show ?thesis .
qed

lemma runlist_shape_map_of:
  assumes "runlist_shape be' = runlist_shape be" and "map_of be' e = Some rl'"
  shows "\<exists>rl. map_of be e = Some rl \<and> path rl = path rl'"
proof -
  let ?g = "\<lambda>rl :: runlist. (length (nextWriteTime rl), path rl)"
  have m: "map_of (runlist_shape b) = map_option ?g \<circ> map_of b" for b
    by (induction b) (auto simp: runlist_shape_def)
  from assms(1) have "map_of (runlist_shape be') e = map_of (runlist_shape be) e" by simp
  with assms(2) have "map_option ?g (map_of be e) = Some (?g rl')" by (simp add: m)
  then show ?thesis by auto
qed

lemma two_level_inv_shape:
  assumes inv: "two_level_inv sm" and "byPath sm' = byPath sm"
    and rs: "runlist_shape (byExpr sm') = runlist_shape (byExpr sm)"
  shows "two_level_inv sm'"
proof -
  from inv have i1: "\<And>p. (map_of (byPath sm) p \<noteq> None) =
           (\<exists>e rl. map_of (byExpr sm) e = Some rl \<and> map_of (path rl) p \<noteq> None)"
    and i2: "\<And>e rl p a. map_of (byExpr sm) e = Some rl \<Longrightarrow> map_of (path rl) p = Some a \<Longrightarrow>
        map_of (byPath sm) p = Some a"
    unfolding two_level_inv_maps by blast+
  have c1: "(map_of (byPath sm') p \<noteq> None) =
           (\<exists>e rl. map_of (byExpr sm') e = Some rl \<and> map_of (path rl) p \<noteq> None)" for p
  proof
    assume "map_of (byPath sm') p \<noteq> None"
    with assms(2) i1 obtain e rl where "map_of (byExpr sm) e = Some rl" "map_of (path rl) p \<noteq> None"
      by auto
    with runlist_shape_map_of [OF rs [symmetric]]
    show "\<exists>e rl. map_of (byExpr sm') e = Some rl \<and> map_of (path rl) p \<noteq> None" by metis
  next
    assume "\<exists>e rl. map_of (byExpr sm') e = Some rl \<and> map_of (path rl) p \<noteq> None"
    with runlist_shape_map_of [OF rs]
    have "\<exists>e rl. map_of (byExpr sm) e = Some rl \<and> map_of (path rl) p \<noteq> None" by metis
    with i1 assms(2) show "map_of (byPath sm') p \<noteq> None" by simp
  qed
  have c2: "map_of (byPath sm') p = Some b"
    if "map_of (byExpr sm') e = Some r" "map_of (path r) p = Some b" for e r p b
  proof -
    from runlist_shape_map_of [OF rs that(1)] obtain rl where
      "map_of (byExpr sm) e = Some rl" "path rl = path r" by blast
    with i2 [of e rl p b] that(2) assms(2) show ?thesis by simp
  qed
  from c1 c2 show ?thesis unfolding two_level_inv_maps by blast
qed

lemma flush_Inr:
  assumes "flush sm t bt ready = Inr (sm', rows, d)"
  obtains be h nf where
    "flushExprs (rollup sm) t bt (byExpr sm) (heap sm, [], time_Add bt Minute) = Inr (be, h, rows, nf)"
    "sm' = sm\<lparr>byExpr := be, heap := h\<rparr>"
    "d = (if \<not> t \<and> ready then Some (flushDelay nf bt) else None)"
  using assms by (auto simp: flush_def split: sum.splits)

lemma two_level_inv_flush:
  assumes "two_level_inv sm" and "flush sm t bt ready = Inr (sm', rows, d)"
  shows "two_level_inv sm'"
proof -
  from assms(2) obtain be h nf where
    fe: "flushExprs (rollup sm) t bt (byExpr sm) (heap sm, [], time_Add bt Minute) = Inr (be, h, rows, nf)"
    and sm': "sm' = sm\<lparr>byExpr := be, heap := h\<rparr>"
    by (rule flush_Inr)
  from flushExprs_shape [OF fe] have "runlist_shape be = runlist_shape (byExpr sm)" by blast
  with sm' show ?thesis
    by (intro two_level_inv_shape [OF assms(1)]) simp_all
qed

lemma reachable_two_level: "reachable sm \<Longrightarrow> two_level_inv sm"
proof (induction rule: reachable.induct)
  case (after_reset sm baseTime)
  show ?case by (rule two_level_inv_reset)
next
  case (after_accumulate sm metric sm' sent)
  from after_accumulate.IH after_accumulate.hyps(2) show ?case
    by (rule two_level_inv_accumulate)
next
  case (after_flush sm terminating baseTime timerReady sm' rows delay)
  from after_flush.IH after_flush.hyps(2) show ?case
    by (rule two_level_inv_flush)
qed

section \<open>Terminating flush and the timer delay\<close>

lemma flush_ok:
  assumes wf: "wf_state sm"
  shows "\<exists>be h rows nf.
           flushExprs (rollup sm) t bt (byExpr sm) (heap sm, [], time_Add bt Minute)
             = Inr (be, h, rows, nf)
           \<and> flush sm t bt ready =
               Inr (sm\<lparr>byExpr := be, heap := h\<rparr>, rows,
                    if \<not> t \<and> ready then Some (flushDelay nf bt) else None)
           \<and> wf_state (sm\<lparr>byExpr := be, heap := h\<rparr>)"
proof -
  from wf have "\<forall>x \<in> set (byExpr sm). wf_runlist (rollup sm) (heap sm) x"
    by (simp add: wf_state_def)
  from flushExprs_ok [OF this, of t bt "[]" "time_Add bt Minute"] obtain res where
    "flushExprs (rollup sm) t bt (byExpr sm) (heap sm, [], time_Add bt Minute) = Inr res"
    by blast
  then obtain be h rows nf where
    fe: "flushExprs (rollup sm) t bt (byExpr sm) (heap sm, [], time_Add bt Minute)
           = Inr (be, h, rows, nf)"
    by (cases res) auto
  then have fl: "flush sm t bt ready =
               Inr (sm\<lparr>byExpr := be, heap := h\<rparr>, rows,
                    if \<not> t \<and> ready then Some (flushDelay nf bt) else None)"
    by (simp add: flush_def)
  from flushExprs_shape [OF fe] have "heap_shape h = heap_shape (heap sm)"
    "runlist_shape be = runlist_shape (byExpr sm)" by blast+
  from wf_state_shape [OF wf this] have "wf_state (sm\<lparr>byExpr := be, heap := h\<rparr>)" .
  with fe fl show ?thesis by blast
qed

lemma bucketRows_member:
  assumes "x \<in> set be" and "pa \<in> set (path (snd x))" and "i < length (nextWriteTime (snd x))"
    and "0 < count (h ! snd pa) ! i"
  shows "(Table (Windows (rollupDefOf defs (fst x)) ! i), fst pa, bt, value (h ! snd pa) ! i)
           \<in> set (concat (map (bucketRows defs bt h) be))"
proof -
  define g where "g = (\<lambda>(i :: nat) (pa :: string \<times> nat). (Table (Windows (rollupDefOf defs (fst x)) ! i), fst pa, bt,
                               value (h ! snd pa) ! i))"
  define f where "f = (\<lambda>i. map (g i) (filter (\<lambda>pa. 0 < count (h ! snd pa) ! i) (path (snd x))))"
  have br: "bucketRows defs bt h x = concat (map f [0..<length (nextWriteTime (snd x))])"
    by (simp add: bucketRows_def f_def g_def)
  from assms(2,4) have "pa \<in> set (filter (\<lambda>pa. 0 < count (h ! snd pa) ! i) (path (snd x)))"
    by simp
  then have "g i pa \<in> g i ` set (filter (\<lambda>pa. 0 < count (h ! snd pa) ! i) (path (snd x)))"
    by (rule imageI)
  then have row: "g i pa \<in> set (f i)"
    by (simp only: f_def set_map)
  from assms(3) have "i \<in> set [0..<length (nextWriteTime (snd x))]" by simp
  then have "g i pa \<in> (\<Union>j \<in> set [0..<length (nextWriteTime (snd x))]. set (f j))"
    using row by (rule UN_I)
  then have "g i pa \<in> set (bucketRows defs bt h x)"
    by (simp only: br set_concat set_map image_image)
  with assms(1) have "g i pa \<in> (\<Union>y \<in> set be. set (bucketRows defs bt h y))"
    by (rule UN_I)
  then have "g i pa \<in> set (concat (map (bucketRows defs bt h) be))"
    by (simp only: set_concat set_map image_image)
  then show ?thesis by (simp only: g_def)
qed

lemma bucketRows_time:
  "r \<in> set (concat (map (bucketRows defs bt h) be)) \<Longrightarrow> fst (snd (snd r)) = bt"
  by (auto simp: bucketRows_def)

text \<open>
  C7. In a well-formed state \<open>flush(true)\<close> returns and submits no delay. Whatever the
  write times are, the rows handed to the batch writer are exactly the non-empty buckets
  of every expression, window and path (\<open>bucketRows\<close>): each bucket with a count above
  zero is a row of its window's table carrying the bucket's value, and every row is
  stamped \<open>baseTime\<close>. Afterwards every bucket of every rollup, reached through a run
  list or through \<open>byPath\<close>, has count 0 and value 0.
\<close>

theorem flush_terminating:
  assumes "wf_state sm"
  shows "\<exists>sm' rows.
           flush sm True baseTime timerReady = Inr (sm', rows, None)
           \<and> rows = concat (map (bucketRows (rollup sm) baseTime (heap sm)) (byExpr sm))
           \<and> (\<forall>x \<in> set (byExpr sm). \<forall>pa \<in> set (path (snd x)).
                \<forall>i < length (nextWriteTime (snd x)).
                  0 < count (heap sm ! snd pa) ! i \<longrightarrow>
                  (Table (Windows (rollupDefOf (rollup sm) (fst x)) ! i), fst pa, baseTime,
                   value (heap sm ! snd pa) ! i) \<in> set rows)
           \<and> (\<forall>r \<in> set rows. fst (snd (snd r)) = baseTime)
           \<and> byPath sm' = byPath sm
           \<and> runlist_shape (byExpr sm') = runlist_shape (byExpr sm)
           \<and> (\<forall>x \<in> set (byExpr sm'). \<forall>pa \<in> set (path (snd x)).
                \<forall>i < length (count (heap sm' ! snd pa)).
                  count (heap sm' ! snd pa) ! i = 0 \<and> value (heap sm' ! snd pa) ! i = 0)
           \<and> (\<forall>pa \<in> set (byPath sm'). \<forall>i < length (count (heap sm' ! snd pa)).
                  count (heap sm' ! snd pa) ! i = 0 \<and> value (heap sm' ! snd pa) ! i = 0)
           \<and> wf_state sm'"
proof -
  from flush_ok [OF assms, of True baseTime timerReady] obtain be h rows nf where
    fe: "flushExprs (rollup sm) True baseTime (byExpr sm) (heap sm, [], time_Add baseTime Minute)
           = Inr (be, h, rows, nf)"
    and fl: "flush sm True baseTime timerReady = Inr (sm\<lparr>byExpr := be, heap := h\<rparr>, rows, None)"
    and wf': "wf_state (sm\<lparr>byExpr := be, heap := h\<rparr>)"
    by auto
  let ?sm' = "sm\<lparr>byExpr := be, heap := h\<rparr>"
  from assms have d: "distinct (map fst (byExpr sm))"
    and wr: "\<forall>x \<in> set (byExpr sm). wf_runlist (rollup sm) (heap sm) x"
    by (simp_all add: wf_state_def wf_config_def)
  from flushExprs_terminating [OF d wr fe] have
    rows: "rows = concat (map (bucketRows (rollup sm) baseTime (heap sm)) (byExpr sm))"
    and cells: "\<forall>x \<in> set (byExpr sm). \<forall>pa \<in> set (path (snd x)).
           h ! snd pa = fold zeroBucket [0..<length (nextWriteTime (snd x))] (heap sm ! snd pa)"
    by simp_all
  from flushExprs_shape [OF fe] have rs: "runlist_shape be = runlist_shape (byExpr sm)" by blast
  have emitted: "\<forall>x \<in> set (byExpr sm). \<forall>pa \<in> set (path (snd x)).
                \<forall>i < length (nextWriteTime (snd x)).
                  0 < count (heap sm ! snd pa) ! i \<longrightarrow>
                  (Table (Windows (rollupDefOf (rollup sm) (fst x)) ! i), fst pa, baseTime,
                   value (heap sm ! snd pa) ! i) \<in> set rows"
    unfolding rows by (intro ballI allI impI bucketRows_member)
  have stamped: "\<forall>r \<in> set rows. fst (snd (snd r)) = baseTime"
    unfolding rows by (intro ballI bucketRows_time)
  have zero: "count (h ! snd pa) ! i = 0 \<and> value (h ! snd pa) ! i = 0"
    if "x \<in> set (byExpr sm)" "pa \<in> set (path (snd x))" "i < length (count (h ! snd pa))"
    for x pa i
  proof -
    let ?n = "length (nextWriteTime (snd x))"
    from wr that(1,2) have lc: "length (count (heap sm ! snd pa)) = ?n"
      and lv: "length (value (heap sm ! snd pa)) = ?n"
      by (simp_all add: wf_runlist_def)
    from cells that(1,2) have c: "h ! snd pa = fold zeroBucket [0..<?n] (heap sm ! snd pa)"
      by blast
    with that(3) lc have i: "i < ?n" by (simp add: fold_zeroBucket_simps)
    from i lc have "count (fold zeroBucket [0..<?n] (heap sm ! snd pa)) ! i = 0"
      by (simp add: fold_zeroBucket_count)
    moreover from i lv have "value (fold zeroBucket [0..<?n] (heap sm ! snd pa)) ! i = 0"
      by (simp add: fold_zeroBucket_value)
    ultimately show ?thesis using c by simp
  qed
  have z1: "\<forall>x \<in> set (byExpr ?sm'). \<forall>pa \<in> set (path (snd x)).
                \<forall>i < length (count (heap ?sm' ! snd pa)).
                  count (heap ?sm' ! snd pa) ! i = 0 \<and> value (heap ?sm' ! snd pa) ! i = 0"
  proof (intro ballI allI impI)
    fix x' pa i
    assume x': "x' \<in> set (byExpr ?sm')" and pa: "pa \<in> set (path (snd x'))"
      and i: "i < length (count (heap ?sm' ! snd pa))"
    from x' have "x' \<in> set be" by simp
    from runlist_shape_set [OF rs this] obtain x where
      "x \<in> set (byExpr sm)" "path (snd x') = path (snd x)" by blast
    with pa i zero [of x pa i]
    show "count (heap ?sm' ! snd pa) ! i = 0 \<and> value (heap ?sm' ! snd pa) ! i = 0" by simp
  qed
  have z2: "\<forall>pa \<in> set (byPath ?sm'). \<forall>i < length (count (heap ?sm' ! snd pa)).
                  count (heap ?sm' ! snd pa) ! i = 0 \<and> value (heap ?sm' ! snd pa) ! i = 0"
  proof (intro ballI allI impI)
    fix pa i
    assume pa: "pa \<in> set (byPath ?sm')" and i: "i < length (count (heap ?sm' ! snd pa))"
    from pa assms obtain x where "x \<in> set (byExpr sm)" "pa \<in> set (path (snd x))"
      unfolding wf_state_def by auto
    with i zero [of x pa i]
    show "count (heap ?sm' ! snd pa) ! i = 0 \<and> value (heap ?sm' ! snd pa) ! i = 0" by simp
  qed
  from fl rows emitted stamped rs z1 z2 wf' show ?thesis
    by (intro exI [of _ ?sm'] exI [of _ rows]) simp
qed

lemma ex_flush_terminating:
  "flush ex_state True (105 * Second) ready =
     Inr (ex_state\<lparr>byExpr := [(ROLLUP_CATCHALL,
                        \<lparr>nextWriteTime = [110 * Second, 120 * Second], path = [(''a.b'', 0)]\<rparr>)],
                    heap := [\<lparr>expr = ROLLUP_CATCHALL, count = [0, 0], value = [0, 0]\<rparr>]\<rparr>,
          [(''rollup_10_60'', ''a.b'', 105 * Second, 6),
           (''rollup_60_3600'', ''a.b'', 105 * Second, 6)],
          None)"
  by (simp add: flush_def ex_state_def ex_rollup_def ex_windows_def rollupDefOf_def index_def
      upt_rec zeroBucket_def nextTimeBoundary_def time_Before_def time_After_def time_Add_def
      Second_def Minute_def Let_def)

lemma ex_flush_boundary:
  "flush ex_state False (110 * Second) True = Inr (ex_state, [], Some 0)"
  by (simp add: flush_def ex_state_def ex_rollup_def ex_windows_def rollupDefOf_def index_def
      upt_rec zeroBucket_def nextTimeBoundary_def time_Before_def time_After_def time_Add_def
      time_Sub_def flushDelay_def minDuration_def maxDuration_def Millisecond_def
      Second_def Minute_def Let_def)

lemma ex_flush_half_millisecond:
  "flush ex_state False 109999500000 True = Inr (ex_state, [], Some 500000)"
  by (simp add: flush_def ex_state_def ex_rollup_def ex_windows_def rollupDefOf_def index_def
      upt_rec zeroBucket_def nextTimeBoundary_def time_Before_def time_After_def time_Add_def
      time_Sub_def flushDelay_def minDuration_def maxDuration_def Millisecond_def
      Second_def Minute_def Let_def)

lemma flushDelay_eq:
  assumes "nf \<le> bt + Minute"
  shows "flushDelay nf bt = (if nf - bt < 0 then Millisecond else nf - bt)"
proof -
  from assms have "nf - bt \<le> maxDuration"
    by (simp add: Minute_def maxDuration_def)
  then have "time_Sub nf bt = max minDuration (nf - bt)"
    by (simp add: time_Sub_def)
  moreover have "minDuration < 0" by (simp add: minDuration_def)
  ultimately show ?thesis
    by (auto simp: flushDelay_def Let_def max_def)
qed

text \<open>
  C9 (amended). In a well-formed state \<open>flush(false)\<close> returns with the same state and
  rows whether or not the timer is ready to receive: a ready timer receives the delay,
  otherwise nothing is sent. The delay is \<open>nextFlush - baseTime\<close> when that is not
  negative and one millisecond when it is negative, where \<open>nextFlush\<close> is the earliest of
  \<open>baseTime\<close> plus one minute and the write times after the flush. So the delay is never
  negative; it is not raised to one millisecond when it is shorter.
\<close>

theorem flush_timer_delay:
  assumes "wf_state sm"
  shows "\<exists>sm' rows delay.
           flush sm False baseTime True = Inr (sm', rows, Some delay)
           \<and> flush sm False baseTime False = Inr (sm', rows, None)
           \<and> delay = (let nextFlush = Min (insert (baseTime + Minute)
                                          (\<Union>x \<in> set (byExpr sm'). set (nextWriteTime (snd x))))
                       in if nextFlush - baseTime < 0 then Millisecond else nextFlush - baseTime)
           \<and> 0 \<le> delay"
proof -
  from flush_ok [OF assms, of False baseTime] obtain be h rows nf where
    fe: "flushExprs (rollup sm) False baseTime (byExpr sm) (heap sm, [], time_Add baseTime Minute)
           = Inr (be, h, rows, nf)"
    by blast
  let ?sm' = "sm\<lparr>byExpr := be, heap := h\<rparr>"
  from fe have f1: "flush sm False baseTime True = Inr (?sm', rows, Some (flushDelay nf baseTime))"
    and f2: "flush sm False baseTime False = Inr (?sm', rows, None)"
    by (simp_all add: flush_def)
  from flushExprs_nextFlush [OF fe] have
    nf: "nf = Min (insert (baseTime + Minute) (\<Union>x \<in> set be. set (nextWriteTime (snd x))))"
    by (simp add: time_Add_def)
  have "finite (insert (baseTime + Minute) (\<Union>x \<in> set be. set (nextWriteTime (snd x))))"
    by simp
  then have "Min (insert (baseTime + Minute) (\<Union>x \<in> set be. set (nextWriteTime (snd x))))
               \<le> baseTime + Minute"
    by (rule Min_le) simp
  with nf have le: "nf \<le> baseTime + Minute" by simp
  from flushDelay_eq [OF le] have
    d: "flushDelay nf baseTime = (if nf - baseTime < 0 then Millisecond else nf - baseTime)" .
  then have pos: "0 \<le> flushDelay nf baseTime"
    by (simp add: Millisecond_def)
  from f1 f2 d pos nf show ?thesis
    by (intro exI [of _ ?sm'] exI [of _ rows] exI [of _ "flushDelay nf baseTime"])
       (simp add: Let_def)
qed

theorem flush_timer_delay_witness:
  "wf_state ex_state
   \<and> flush ex_state False 109999500000 True = Inr (ex_state, [], Some 500000)
   \<and> (500000 :: int) = 110 * Second - 109999500000"
  using flush_timer_delay [OF ex_state_wf, of 109999500000] ex_state_wf
  by (simp add: ex_flush_half_millisecond Second_def)

text \<open>
  C9 as stated fails: half a millisecond before the ten-second window of the example
  state closes, \<open>flush(false)\<close> submits a delay of 500000 nanoseconds, where the maximum of
  that difference and one millisecond is 1000000.
\<close>

theorem flush_delay_below_millisecond:
  "flush ex_state False 109999500000 True = Inr (ex_state, [], Some 500000)
   \<and> nextWriteTime (snd (byExpr ex_state ! 0)) = [110 * Second, 120 * Second]
   \<and> max (110 * Second - 109999500000) Millisecond = 1000000
   \<and> (500000 :: int) < Millisecond"
  by (simp add: ex_flush_half_millisecond) (simp add: ex_state_def Second_def Millisecond_def)

text \<open>
  C1. The claim: after any flush every next write time is strictly later than
  \<open>baseTime\<close>, as the comment in the loop over the windows asserts. A window is
  processed only when its write time is before \<open>baseTime\<close>, so a write time equal to
  \<open>baseTime\<close> stays: flushing the example state at the very instant its ten-second
  window closes returns the state unchanged, with that write time equal to \<open>baseTime\<close>
  and not later (and a delay of zero for the timer).
\<close>

theorem flush_leaves_boundary_at_baseTime:
  "flush ex_state False (110 * Second) True = Inr (ex_state, [], Some 0)
   \<and> nextWriteTime (snd (byExpr ex_state ! 0)) ! 0 = 110 * Second
   \<and> \<not> nextWriteTime (snd (byExpr ex_state ! 0)) ! 0 > 110 * Second"
  by (simp add: ex_flush_boundary) (simp add: ex_state_def)

theorem flush_terminating_witness:
  "wf_state ex_state
   \<and> (\<exists>sm'. flush ex_state True (105 * Second) False =
               Inr (sm', [(''rollup_10_60'', ''a.b'', 105 * Second, 6),
                          (''rollup_60_3600'', ''a.b'', 105 * Second, 6)], None)
          \<and> heap sm' = [\<lparr>expr = ROLLUP_CATCHALL, count = [0, 0], value = [0, 0]\<rparr>])
   \<and> nextWriteTime (snd (byExpr ex_state ! 0)) = [110 * Second, 120 * Second]"
  using flush_terminating [OF ex_state_wf, of "105 * Second" False] ex_state_wf
  by (simp add: ex_flush_terminating) (simp add: ex_state_def)

section \<open>Properties of the read worker\<close>

lemma ex_getExpression: "getExpression ex_sm p = Inr ROLLUP_CATCHALL"
  by (simp add: getExpression_def ex_sm_def)

lemma ex_windows_of: "Windows (rollupDefOf ex_rollup ROLLUP_CATCHALL) = ex_windows"
  by (simp add: rollupDefOf_def ex_rollup_def)

lemma time_Unix_wrap:
  "time_Unix sec = ((sec + unixToInternal + 2 ^ 63) mod 2 ^ 64 - 2 ^ 63 - unixToInternal) * Second"
  unfolding time_Unix_def int_word_sint by simp

lemma time_Unix_100: "time_Unix 100 = 100 * Second"
  by (simp add: time_Unix_wrap unixToInternal_def)

lemma time_Unix_130: "time_Unix 130 = 130 * Second"
  by (simp add: time_Unix_wrap unixToInternal_def)

text \<open>
  C3. The claim: in a request with two or more paths, the series entry of each path holds
  exactly the stats of that path's own SELECT. The code declares \<open>statList\<close> before the
  loop over the paths and never empties it, so the entry of the second path holds the
  stats of the first path followed by its own: for the paths \<open>a\<close> and \<open>b\<close>, whose SELECTs
  yield \<open>[1]\<close> and \<open>[2]\<close>, the series is \<open>a: [1]\<close>, \<open>b: [1, 2]\<close>.
\<close>

theorem queryGET_series_accumulates:
  "queryGET ex_sm ex_rollup ex_toSeconds ex_db (130 * Second) ex_query =
     (Sent (APIQueryResponse AQS_OK []
        (Marshal (MetricResponse 100 130 10 [(''a'', [1]), (''b'', [1, 2])]))),
      [(''rollup_10_60'', ''a'', 100 * Second, 130 * Second),
       (''rollup_10_60'', ''b'', 100 * Second, 130 * Second)])"
  by (simp add: queryGET_def ex_query_def ex_getExpression ex_windows_of ex_windows_def
      time_Sub_def time_Unix_100 time_Unix_130 Second_def minDuration_def maxDuration_def
      ex_db_def ex_toSeconds_def Let_def)

text \<open>
  C10 (amended). \<open>queryGET\<close> answers with the BADREQUEST envelope carrying the message
  \<open>no query specified\<close> exactly when the response channel is still open and the path list
  is empty or its first element is the empty string; no other request gets a BADREQUEST
  envelope of any kind, so an empty string at a later position is not rejected. A request
  with such a path list issues no SELECT, whether its channel is open or closed.
\<close>

theorem queryGET_bad_request_iff:
  "((queryGET sm G_Rollup toSeconds db now q =
       (Sent (APIQueryResponse AQS_BADREQUEST ''no query specified'' NoBytes), []))
      = (\<not> ChannelClosed q \<and> (case Query q of [] \<Rightarrow> True | p # ps \<Rightarrow> p = [])))
   \<and> ((\<exists>msg pl sels. queryGET sm G_Rollup toSeconds db now q =
            (Sent (APIQueryResponse AQS_BADREQUEST msg pl), sels))
      = (\<not> ChannelClosed q \<and> (case Query q of [] \<Rightarrow> True | p # ps \<Rightarrow> p = [])))
   \<and> ((case Query q of [] \<Rightarrow> True | p # ps \<Rightarrow> p = []) \<longrightarrow>
         snd (queryGET sm G_Rollup toSeconds db now q) = [])"
  by (auto simp: queryGET_def split: list.splits sum.splits prod.splits)

theorem queryGET_bad_request_iff_witness:
  "\<not> ChannelClosed ex_query_later_empty
   \<and> Query ex_query_later_empty = [''a'', []]
   \<and> queryGET ex_sm ex_rollup ex_toSeconds ex_db (130 * Second) ex_query_later_empty
       \<noteq> (Sent (APIQueryResponse AQS_BADREQUEST ''no query specified'' NoBytes), [])
   \<and> Query (ex_query_later_empty\<lparr>Query := [[], ''a'']\<rparr>) = [[], ''a'']
   \<and> queryGET ex_sm ex_rollup ex_toSeconds ex_db (130 * Second)
         (ex_query_later_empty\<lparr>Query := [[], ''a'']\<rparr>)
       = (Sent (APIQueryResponse AQS_BADREQUEST ''no query specified'' NoBytes), [])"
  using queryGET_bad_request_iff [of ex_sm ex_rollup ex_toSeconds ex_db "130 * Second"
      ex_query_later_empty]
    queryGET_bad_request_iff [of ex_sm ex_rollup ex_toSeconds ex_db "130 * Second"
      "ex_query_later_empty\<lparr>Query := [[], ''a'']\<rparr>"]
  by (simp add: ex_query_later_empty_def)

text \<open>
  C10 as stated fails for a request that its requester has abandoned: with an empty path
  list and a closed response channel, the send of the BADREQUEST envelope, which comes
  before the deferred \<open>recover\<close> is installed, panics, and no envelope is delivered.
\<close>

theorem queryGET_bad_request_closed_channel:
  "Query ex_query_abandoned = []
   \<and> ChannelClosed ex_query_abandoned
   \<and> queryGET ex_sm ex_rollup ex_toSeconds ex_db (130 * Second) ex_query_abandoned
       = (Panicked ClosedChannel, [])
   \<and> queryGET ex_sm ex_rollup ex_toSeconds ex_db (130 * Second) ex_query_abandoned
       \<noteq> (Sent (APIQueryResponse AQS_BADREQUEST ''no query specified'' NoBytes), [])"
  by (simp add: queryGET_def ex_query_abandoned_def)







section \<open>Properties of the path resolver\<close>

lemma getMax_bracket: "\<exists>m. getMax (CHR ''['' # s) = Inr m"
  by (simp add: getMax_def)

lemma strings_Split_nonempty: "strings_Split sep s \<noteq> []"
  by (induction s) (auto split: list.splits)

lemma lookup_empty:
  assumes "\<forall>hi. getMax (CHR ''['' # s) = Inr hi \<longrightarrow>
             rc gopher (CHR ''['' # s) hi = None \<or> rc gopher (CHR ''['' # s) hi = Some []"
  shows "(case getMax (CHR ''['' # s) of
            Inl e \<Rightarrow> Inl e
          | Inr mx \<Rightarrow>
              (case rc gopher (CHR ''['' # s) mx of
                 None \<Rightarrow> Inr []
               | Some resp \<Rightarrow> if length resp = 0 then Inr [] else f resp))
         = (Inr [] :: panic + string)"
proof -
  obtain m where m: "getMax (CHR ''['' # s) = Inr m"
    using getMax_bracket by blast
  with assms have "rc gopher (CHR ''['' # s) m = None \<or> rc gopher (CHR ''['' # s) m = Some []"
    by blast
  with m show ?thesis by auto
qed

lemma noWild_empty:
  assumes "\<forall>hi. getMax lo = Inr hi \<longrightarrow> rc gopher lo hi = None \<or> rc gopher lo hi = Some []"
    and "lo = ''['' @ ToBigEndianString gopher l @ '':'' @ p @ '':''"
  shows "noWild gopher p l = Inr []"
proof -
  from assms have "\<forall>hi. getMax (CHR ''['' # ToBigEndianString gopher l @ '':'' @ p @ '':'') = Inr hi \<longrightarrow>
      rc gopher (CHR ''['' # ToBigEndianString gopher l @ '':'' @ p @ '':'') hi = None
      \<or> rc gopher (CHR ''['' # ToBigEndianString gopher l @ '':'' @ p @ '':'') hi = Some []"
    by simp
  from lookup_empty [OF this, of "\<lambda>resp. processQueryResults gopher resp l"]
  show ?thesis
    by (auto simp: noWild_def Let_def split: sum.splits option.splits if_splits)
qed

lemma simpleWild_empty:
  assumes "\<forall>hi. getMax lo = Inr hi \<longrightarrow> rc gopher lo hi = None \<or> rc gopher lo hi = Some []"
    and "lo = ''['' @ ToBigEndianString gopher l @ '':'' @ p"
  shows "simpleWild gopher p l = Inr []"
proof -
  from assms have "\<forall>hi. getMax (CHR ''['' # ToBigEndianString gopher l @ '':'' @ p) = Inr hi \<longrightarrow>
      rc gopher (CHR ''['' # ToBigEndianString gopher l @ '':'' @ p) hi = None
      \<or> rc gopher (CHR ''['' # ToBigEndianString gopher l @ '':'' @ p) hi = Some []"
    by simp
  from lookup_empty [OF this, of "\<lambda>resp. processQueryResults gopher resp l"]
  show ?thesis
    by (auto simp: simpleWild_def Let_def split: sum.splits option.splits if_splits)
qed

lemma complexWild_empty:
  assumes "\<forall>hi. getMax lo = Inr hi \<longrightarrow> rc gopher lo hi = None \<or> rc gopher lo hi = Some []"
    and "lo = ''['' @ ToBigEndianString gopher l @ '':'' @ p"
  shows "complexWild gopher (p # ps) l = Inr []"
proof -
  from assms have "\<forall>hi. getMax (CHR ''['' # ToBigEndianString gopher l @ '':'' @ p) = Inr hi \<longrightarrow>
      rc gopher (CHR ''['' # ToBigEndianString gopher l @ '':'' @ p) hi = None
      \<or> rc gopher (CHR ''['' # ToBigEndianString gopher l @ '':'' @ p) hi = Some []"
    by simp
  from lookup_empty [OF this, of "\<lambda>resp.
      case compile gopher (strings_Join (p # ps) ''.*'') of
        None \<Rightarrow> Inr []
      | Some regex \<Rightarrow> processQueryResults gopher (filter regex resp) l"]
  show ?thesis
    by (auto simp: complexWild_def index_def Let_def split: sum.splits option.splits if_splits)
qed

text \<open>
  C4 (amended). When the index lookup that a resolve makes, on the range from its key
  \<open>lo\<close> to the maximum \<open>getMax\<close> gives for it, returns an error or no members, the exact,
  the prefix and the multi-wildcard lookup each return the nil byte slice (zero bytes)
  without a panic, and \<open>query\<close> sends these zero bytes on the response channel; that send
  panics if the requester has closed the channel. Nothing is assumed of the other ranges
  of the index.
\<close>

theorem resolve_empty_lookup:
  assumes "\<forall>hi. getMax lo = Inr hi \<longrightarrow> rc gopher lo hi = None \<or> rc gopher lo hi = Some []"
  shows "(lo = ''['' @ ToBigEndianString gopher l @ '':'' @ p @ '':'' \<longrightarrow>
            noWild gopher p l = Inr [])
       \<and> (lo = ''['' @ ToBigEndianString gopher l @ '':'' @ p \<longrightarrow>
            simpleWild gopher p l = Inr [] \<and> complexWild gopher (p # ps) l = Inr [])
       \<and> (lo = ''['' @ ToBigEndianString gopher
                        (int (length (strings_Split (CHR ''.'') (Query_index q))))
                 @ '':''
                 @ (if length (strings_Split (CHR ''*'') (Query_index q)) = 1
                    then Query_index q @ '':''
                    else strings_Split (CHR ''*'') (Query_index q) ! 0) \<longrightarrow>
            query gopher q = (if ChannelClosed_index q then Panicked ClosedChannel else Sent []))"
proof (intro conjI impI)
  assume "lo = ''['' @ ToBigEndianString gopher l @ '':'' @ p @ '':''"
  with assms show "noWild gopher p l = Inr []" by (rule noWild_empty)
next
  assume "lo = ''['' @ ToBigEndianString gopher l @ '':'' @ p"
  with assms show "simpleWild gopher p l = Inr []" by (rule simpleWild_empty)
next
  assume "lo = ''['' @ ToBigEndianString gopher l @ '':'' @ p"
  with assms show "complexWild gopher (p # ps) l = Inr []" by (rule complexWild_empty)
next
  let ?sq = "Query_index q"
  let ?L = "int (length (strings_Split (CHR ''.'') ?sq))"
  let ?sw = "strings_Split (CHR ''*'') ?sq"
  assume lo: "lo = ''['' @ ToBigEndianString gopher ?L @ '':''
                 @ (if length ?sw = 1 then ?sq @ '':'' else ?sw ! 0)"
  obtain s ss where sw: "?sw = s # ss"
    using strings_Split_nonempty [of "CHR ''*''" ?sq] by (cases ?sw) auto
  have bytes: "(if length ?sw = 1 then noWild gopher ?sq ?L
             else if length ?sw = 2 \<and> ?sw ! 1 = [] then
               (case index ?sw 0 of
                  None \<Rightarrow> Inl IndexOutOfRange
                | Some prefix \<Rightarrow> simpleWild gopher prefix ?L)
             else complexWild gopher ?sw ?L) = Inr []"
  proof (cases "length ?sw = 1")
    case True
    with lo have "lo = ''['' @ ToBigEndianString gopher ?L @ '':'' @ ?sq @ '':''" by simp
    from noWild_empty [OF assms this] True show ?thesis by simp
  next
    case False
    with lo sw have l: "lo = ''['' @ ToBigEndianString gopher ?L @ '':'' @ s" by simp
    from simpleWild_empty [OF assms l] complexWild_empty [OF assms l, of ss] False sw
    show ?thesis by (simp add: index_def)
  qed
  show "query gopher q = (if ChannelClosed_index q then Panicked ClosedChannel else Sent [])"
    unfolding query_def Let_def bytes by simp
qed

theorem resolve_empty_lookup_witness:
  "getMax ''[0002:x.y:'' = Inr (''[0002:x.y'' @ [backslash] @ '':'' @ [backslash] @ ''xff'')
   \<and> rc ex_gopher ''[0002:x.y:'' (''[0002:x.y'' @ [backslash] @ '':'' @ [backslash] @ ''xff'')
       = Some []
   \<and> noWild ex_gopher ''x.y'' 2 = Inr []
   \<and> query ex_gopher ex_resolve_missing = Sent []
   \<and> rc ex_gopher ''[0005:a.b.c.d.''
        (''[0005:a.b.c.d'' @ [backslash] @ ''.'' @ [backslash] @ ''xff'')
       = Some [''0005:a.b.c.d.e:true'', ''0005:a.b.c.d.f:true'']
   \<and> query ex_gopher ex_resolve_prefix = Sent ''[...]''"
proof -
  have "\<forall>hi. getMax ''[0002:x.y:'' = Inr hi \<longrightarrow>
          rc ex_gopher ''[0002:x.y:'' hi = None \<or> rc ex_gopher ''[0002:x.y:'' hi = Some []"
    by (simp add: ex_gopher_def)
  from resolve_empty_lookup [OF this, of 2 "''x.y''" "[]" ex_resolve_missing]
  show ?thesis
    by (simp add: ex_gopher_def ex_resolve_missing_def ex_resolve_prefix_def
        ex_ToBigEndianString_def ex_marshal_def getMax_def query_def simpleWild_def
        processQueryResults_def index_def Let_def)
qed

text \<open>
  C4 as stated fails twice. The answer to a resolve whose lookup fails or finds no
  members is zero bytes, which is neither the serialized empty list nor what the encoder
  gives for an empty response list. And a resolve can panic: the send of the answer is
  unguarded, so it panics when the channel is closed, and a member of the index without
  a second colon makes \<open>processQueryResults\<close> index out of range.
\<close>

theorem resolve_answer_is_not_a_list:
  "query ex_gopher_down ex_resolve_prefix = Sent []
   \<and> query ex_gopher ex_resolve_missing = Sent []
   \<and> serializedEmptyList = ''[]''
   \<and> marshal ex_gopher [] = ''null''
   \<and> query ex_gopher ex_resolve_missing \<noteq> Sent serializedEmptyList
   \<and> query ex_gopher ex_resolve_missing \<noteq> Sent (marshal ex_gopher [])
   \<and> query ex_gopher ex_resolve_abandoned = Panicked ClosedChannel
   \<and> query ex_gopher_malformed ex_resolve_missing = Panicked IndexOutOfRange"
  by (simp add: query_def noWild_def simpleWild_def getMax_def index_def
      processQueryResults_def serializedEmptyList_def ex_gopher_def ex_gopher_down_def
      ex_gopher_malformed_def ex_resolve_prefix_def ex_resolve_missing_def
      ex_resolve_abandoned_def ex_ToBigEndianString_def ex_marshal_def Let_def)

section \<open>States of the event loop\<close>

lemma wf_state_reset:
  assumes "wf_config sm"
  shows "wf_state (resetRollupData sm bt)"
proof -
  let ?mk = "\<lambda>x :: string \<times> RollupDef.
               (fst x, \<lparr>nextWriteTime = map (\<lambda>v. nextTimeBoundary bt (Window v)) (Windows (snd x)),
                       path = []\<rparr>)"
  have be: "byExpr (resetRollupData sm bt) = map ?mk (rollup sm)"
    by (simp add: resetRollupData_def case_prod_beta)
  from assms have d: "distinct (map fst (rollup sm))" by (simp add: wf_config_def)
  have c1: "wf_config (resetRollupData sm bt)"
    using assms by (simp add: wf_config_def resetRollupData_def)
  have c2: "map fst (byExpr (resetRollupData sm bt)) = map fst (rollup (resetRollupData sm bt))"
    by (simp add: be comp_def) (simp add: resetRollupData_def)
  have c3: "wf_runlist (rollup sm) [] x \<and> path (snd x) = []"
    if "x \<in> set (byExpr (resetRollupData sm bt))" for x
  proof -
    from that be obtain y where y: "y \<in> set (rollup sm)" "x = ?mk y" by auto
    from d y(1) have "map_of (rollup sm) (fst y) = Some (snd y)" by simp
    then have "rollupDefOf (rollup sm) (fst y) = snd y" by (simp add: rollupDefOf_def)
    with y(2) show ?thesis by (simp add: wf_runlist_def)
  qed
  have "rollup (resetRollupData sm bt) = rollup sm" "heap (resetRollupData sm bt) = []"
    "byPath (resetRollupData sm bt) = []"
    by (simp_all add: resetRollupData_def)
  with c1 c2 c3 show ?thesis
    unfolding wf_state_def by simp
qed

lemma accumulate_config:
  assumes "accumulate sm m = Inr (sm', sent)"
  shows "rollup sm' = rollup sm \<and> rollupPriority sm' = rollupPriority sm"
proof -
  from assms obtain sm1 a s1 where loc: "locateRollup sm m = Inr (sm1, a, s1)"
    and ap: "applyMetric sm1 a (Value m) = Inr sm'"
    by (auto simp: accumulate_def split: sum.splits)
  from loc have "rollup sm1 = rollup sm \<and> rollupPriority sm1 = rollupPriority sm"
    by (auto simp: locateRollup_def Let_def split: option.splits sum.splits)
  moreover from ap obtain r where r: "index (heap sm1) a = Some r"
    by (cases "index (heap sm1) a") (simp_all add: applyMetric_def)
  from ap r obtain vs where
    "applyValues (Method (rollupDefOf (rollup sm1) (expr r))) (Value m) (count r) 0 (value r) = Inr vs"
    by (cases "applyValues (Method (rollupDefOf (rollup sm1) (expr r))) (Value m) (count r) 0 (value r)")
       (simp_all add: applyMetric_def)
  with ap r have
    "sm' = sm1\<lparr>heap := (heap sm1)[a := r\<lparr>value := vs, count := map (\<lambda>c. c + 1) (count r)\<rparr>]\<rparr>"
    by (simp add: applyMetric_def)
  then have "rollup sm' = rollup sm1 \<and> rollupPriority sm' = rollupPriority sm1" by simp
  ultimately show ?thesis by simp
qed

lemma wf_config_cong:
  assumes "rollup sm' = rollup sm \<and> rollupPriority sm' = rollupPriority sm" and "wf_config sm'"
  shows "wf_config sm"
  using assms by (simp add: wf_config_def)

lemma accumulate_wf:
  assumes "wf_state sm"
  shows "\<exists>sm' sent. accumulate sm m = Inr (sm', sent) \<and> wf_state sm'"
proof -
  from accumulate_ok [OF assms, of m] obtain sm1 a vs where
    "accumulate sm m =
       Inr (sm1\<lparr>heap := (heap sm1)[a := (heap sm1 ! a)\<lparr>value := vs,
                           count := map (\<lambda>c. c + 1) (count (heap sm1 ! a))\<rparr>]\<rparr>,
            if map_of (byPath sm) (Path m) = None then [m] else [])"
    and "wf_state (sm1\<lparr>heap := (heap sm1)[a := (heap sm1 ! a)\<lparr>value := vs,
                           count := map (\<lambda>c. c + 1) (count (heap sm1 ! a))\<rparr>]\<rparr>)"
    by (elim exE conjE) (erule that, simp_all)
  then show ?thesis by blast
qed

lemma flush_wf:
  assumes "wf_state sm"
  shows "\<exists>sm' rows d. flush sm t bt ready = Inr (sm', rows, d) \<and> wf_state sm'"
proof -
  from flush_ok [OF assms, of t bt ready] obtain be h rows nf where
    "flush sm t bt ready =
       Inr (sm\<lparr>byExpr := be, heap := h\<rparr>, rows,
            if \<not> t \<and> ready then Some (flushDelay nf bt) else None)"
    and "wf_state (sm\<lparr>byExpr := be, heap := h\<rparr>)"
    by blast
  then show ?thesis by blast
qed

lemma reachable_wf: "reachable sm \<Longrightarrow> wf_config sm \<Longrightarrow> wf_state sm"
proof (induction rule: reachable.induct)
  case (after_reset sm baseTime)
  then have "wf_config sm" by (simp add: wf_config_def resetRollupData_def)
  then show ?case by (rule wf_state_reset)
next
  case (after_accumulate sm metric sm' sent)
  from accumulate_config [OF after_accumulate.hyps(2)] after_accumulate.prems
  have "wf_config sm" by (rule wf_config_cong)
  then have wf: "wf_state sm" by (rule after_accumulate.IH)
  from accumulate_wf [OF wf, of metric] obtain s2 sent2 where
    "accumulate sm metric = Inr (s2, sent2)" "wf_state s2" by blast
  with after_accumulate.hyps(2) show ?case by simp
next
  case (after_flush sm terminating baseTime timerReady sm' rows delay)
  from after_flush.hyps(2) obtain be h nf where "sm' = sm\<lparr>byExpr := be, heap := h\<rparr>"
    by (rule flush_Inr)
  then have "rollup sm' = rollup sm \<and> rollupPriority sm' = rollupPriority sm" by simp
  from this after_flush.prems have "wf_config sm" by (rule wf_config_cong)
  then have wf: "wf_state sm" by (rule after_flush.IH)
  from flush_wf [OF wf, of terminating baseTime timerReady] obtain s2 rows2 d2 where
    "flush sm terminating baseTime timerReady = Inr (s2, rows2, d2)" "wf_state s2" by blast
  with after_flush.hyps(2) show ?case by simp
qed

lemma ex_reachable: "reachable ex_state"
proof -
  let ?s0 = "resetRollupData ex_sm (105 * Second)"
  let ?s1 = "ex_state\<lparr>heap := [\<lparr>expr = ROLLUP_CATCHALL, count = [1, 1], value = [1, 1]\<rparr>]\<rparr>"
  let ?s2 = "ex_state\<lparr>heap := [\<lparr>expr = ROLLUP_CATCHALL, count = [2, 2], value = [3, 3]\<rparr>]\<rparr>"
  have r0: "reachable ?s0" by (rule after_reset)
  have a1: "accumulate ?s0 (ex_sample 1) = Inr (?s1, [ex_sample 1])"
    by (simp add: accumulate_def locateRollup_def applyMetric_def index_def ex_state_def
        resetRollupData_def ex_sm_def ex_sample_def ex_rollup_def rollupDefOf_def
        getExpression_def ex_windows_def nextTimeBoundary_def Second_def Let_def)
  have a2: "accumulate ?s1 (ex_sample 2) = Inr (?s2, [])"
    by (simp add: accumulate_def locateRollup_def applyMetric_def index_def ex_state_def
        ex_sample_def ex_rollup_def rollupDefOf_def)
  have a3: "accumulate ?s2 (ex_sample 3) = Inr (ex_state, [])"
    by (simp add: accumulate_def locateRollup_def applyMetric_def index_def ex_state_def
        ex_sample_def ex_rollup_def rollupDefOf_def)
  from r0 a1 have "reachable ?s1" by (rule after_accumulate)
  from this a2 have "reachable ?s2" by (rule after_accumulate)
  from this a3 show ?thesis by (rule after_accumulate)
qed

text \<open>
  C6. In every state between the operations of the event loop, a path is a key of
  \<open>byPath\<close> exactly when it is a key of the \<open>path\<close> map of the run list of some
  expression, and that run list holds for the path the address that \<open>byPath\<close> holds:
  the two views read the same rollup object whatever is written to the heap.
\<close>

theorem two_level_indexing:
  assumes "reachable sm"
  shows "(\<forall>p. (map_of (byPath sm) p \<noteq> None) =
              (\<exists>e rl. map_of (byExpr sm) e = Some rl \<and> map_of (path rl) p \<noteq> None))
       \<and> (\<forall>e rl p a. map_of (byExpr sm) e = Some rl \<longrightarrow> map_of (path rl) p = Some a \<longrightarrow>
             map_of (byPath sm) p = Some a
             \<and> (\<forall>h. viewByExpr (sm\<lparr>heap := h\<rparr>) e p = viewByPath (sm\<lparr>heap := h\<rparr>) p))"
  using reachable_two_level [OF assms] unfolding two_level_inv_def .

theorem two_level_indexing_witness:
  "reachable ex_state
   \<and> map_of (byExpr ex_state) ROLLUP_CATCHALL
       = Some \<lparr>nextWriteTime = [110 * Second, 120 * Second], path = [(''a.b'', 0)]\<rparr>
   \<and> map_of (byPath ex_state) ''a.b'' = Some 0
   \<and> viewByExpr ex_state ROLLUP_CATCHALL ''a.b'' = viewByPath ex_state ''a.b''
   \<and> viewByPath ex_state ''a.b'' = Some \<lparr>expr = ROLLUP_CATCHALL, count = [3, 3], value = [6, 6]\<rparr>"
  using two_level_indexing [OF ex_reachable] ex_reachable
  by (simp add: viewByExpr_def viewByPath_def index_def ex_state_def)

end
